theory Spec2Isabelle
  imports Main
begin

section \<open>JSONFormatter: the node model of \<^verbatim>\<open>src/src/index.ts\<close>\<close>

subsection \<open>Values\<close>

text \<open>
  The values a formatter is constructed over. \<open>JUndefined\<close> is JavaScript's
  \<^verbatim>\<open>undefined\<close>, the result of reading a member that does not exist. Numbers are
  the integers. An object is the list of its own enumerable members in the order
  \<^verbatim>\<open>Object.keys\<close> enumerates them.
\<close>

datatype json =
    JUndefined
  | JNull
  | JBool bool
  | JNum int
  | JStr string
  | JArr "json list"
  | JObj "(string \<times> json) list"

text \<open>
  The expansion depth \<^verbatim>\<open>open\<close> is a number: an integer, or \<^verbatim>\<open>Infinity\<close>
  ("set it to Infinity to expand the tree deeply").
\<close>

datatype depth = Finite int | Infinity

fun positive :: "depth \<Rightarrow> bool" where
  "positive (Finite n) = (0 < n)"
| "positive Infinity = True"

fun negative :: "depth \<Rightarrow> bool" where
  "negative (Finite n) = (n < 0)"
| "negative Infinity = False"

fun minusOne :: "depth \<Rightarrow> depth" where
  "minusOne (Finite n) = Finite (n - 1)"
| "minusOne Infinity = Infinity"

subsection \<open>Decimal rendering of an array index or length\<close>

definition digit :: "nat \<Rightarrow> char" where
  "digit d = ''0123456789'' ! d"

function numberToString :: "nat \<Rightarrow> string" where
  "numberToString n =
     (if n < 10 then [digit n] else numberToString (n div 10) @ [digit (n mod 10)])"
  by pat_completeness auto
termination
  by (relation "measure (\<lambda>n. n)") auto

declare numberToString.simps [simp del]

subsection \<open>Configuration\<close>

text \<open>
  \<^verbatim>\<open>JSONFormatterConfiguration\<close>: every option may be left out; \<open>None\<close> is
  \<^verbatim>\<open>undefined\<close>. The two counts are integers. The comparator returns a number whose
  sign orders its arguments.
\<close>

record configuration =
  hoverPreviewEnabled :: "bool option"
  hoverCopyEnabled :: "bool option"
  hoverPreviewArrayCount :: "int option"
  hoverPreviewFieldCount :: "int option"
  animateOpen :: "bool option"
  animateClose :: "bool option"
  theme :: "string option"
  useToJSON :: "bool option"
  sortPropertiesBy :: "(string \<Rightarrow> string \<Rightarrow> int) option"

definition defaultConfig :: configuration where
  "defaultConfig = \<lparr>
     hoverPreviewEnabled = Some False,
     hoverCopyEnabled = Some True,
     hoverPreviewArrayCount = Some 100,
     hoverPreviewFieldCount = Some 5,
     animateOpen = Some True,
     animateClose = Some True,
     theme = None,
     useToJSON = Some True,
     sortPropertiesBy = None \<rparr>"

definition MAX_ANIMATED_TOGGLE_ITEMS :: nat where
  "MAX_ANIMATED_TOGGLE_ITEMS = 10"

text \<open>
  The state outside the formatter objects: the one configuration object every node of a
  tree refers to, the number of calls of \<^verbatim>\<open>requestAnimationFrame\<close> made so far, whether
  the window has a frame clock (\<^verbatim>\<open>window.requestAnimationFrame\<close> exists), and the
  callbacks that wait for the next frame.

  The callbacks are the closures \<^verbatim>\<open>addAChild\<close> and \<^verbatim>\<open>removeAChild\<close> of the node that is
  operated on, each with the value of its counter (\<^verbatim>\<open>index\<close>, \<^verbatim>\<open>childrenRemoved\<close>).
  The operations of the model are called on one node. Its children are attached by
  \<^verbatim>\<open>render\<close>, which never animates, so no operation on the node leaves a callback of
  another node waiting.
\<close>

datatype callback = AddAChild nat | RemoveAChild nat

record env =
  config :: configuration
  frames :: nat
  clock :: bool
  queue :: "callback list"

subsection \<open>Formatters and their rendered elements\<close>

text \<open>
  A formatter object with its fields \<^verbatim>\<open>json\<close>, \<^verbatim>\<open>open\<close>, \<^verbatim>\<open>key\<close>,
  \<^verbatim>\<open>_isOpen\<close> (\<open>None\<close> is \<^verbatim>\<open>null\<close>) and \<^verbatim>\<open>element\<close> (\<open>None\<close> before
  \<^verbatim>\<open>render\<close>). Of the rendered row the model keeps whether it carries the class
  \<^verbatim>\<open>open\<close>, its theme class, the classes of its children container, and the rows
  appended to that container, each together with the formatter that rendered it and that
  its click listener is bound to. The toggler, the value text, the preview text and the
  copy button are not kept.
\<close>

datatype formatter =
  Formatter (json: json) (openDepth: depth) (key: "string option")
            (isOpenField: "bool option") (element: "element option")
and element =
  Element (openClass: bool) (themeClass: "string option")
          (childrenClasses: "string list") (childRows: "formatter list")

fun setIsOpen :: "bool \<Rightarrow> formatter \<Rightarrow> formatter" where
  "setIsOpen v (Formatter j d k io el) = Formatter j d k (Some v) el"

fun setOpenDepth :: "depth \<Rightarrow> formatter \<Rightarrow> formatter" where
  "setOpenDepth d' (Formatter j d k io el) = Formatter j d' k io el"

fun setElement :: "element option \<Rightarrow> formatter \<Rightarrow> formatter" where
  "setElement el' (Formatter j d k io el) = Formatter j d k io el'"

subsection \<open>The helpers of \<^verbatim>\<open>./helpers\<close>\<close>

text \<open>
  Modelled from the spec: \<^verbatim>\<open>isObject\<close> of \<^verbatim>\<open>./helpers\<close>, which is not among the
  sources. The spec has object/array classification exclusive of the primitive one, and
  \<^verbatim>\<open>keys\<close> defined "for object/array values": \<open>isObject\<close> holds of objects and arrays
  and of nothing else.
\<close>

fun isObject :: "json \<Rightarrow> bool" where
  "isObject (JArr xs) = True"
| "isObject (JObj kvs) = True"
| "isObject v = False"

text \<open>
  Modelled from the spec: \<^verbatim>\<open>getType\<close> of \<^verbatim>\<open>./helpers\<close>, which is not among the
  sources. The spec has the type as "one of the primitive kinds, or "array", or "object",
  or "null"".
\<close>

fun getType :: "json \<Rightarrow> string" where
  "getType JUndefined = ''undefined''"
| "getType JNull = ''null''"
| "getType (JBool b) = ''boolean''"
| "getType (JNum n) = ''number''"
| "getType (JStr s) = ''string''"
| "getType (JArr xs) = ''array''"
| "getType (JObj kvs) = ''object''"

text \<open>
  Modelled from the spec: \<^verbatim>\<open>cssClass\<close> of \<^verbatim>\<open>./helpers\<close>, which is not among the
  sources. The spec has the theme as a "class name applied to the root visual" and asks for
  the markers, "not the concrete CSS names": the model takes the name of a marker for its
  class. Whether a class holds white space, which is all the model asks of it, is the same
  under any prefix.
\<close>

definition cssClass :: "string \<Rightarrow> string" where
  "cssClass name = name"

subsection \<open>Derived properties\<close>

fun isArray :: "json \<Rightarrow> bool" where
  "isArray (JArr xs) = True"
| "isArray v = False"

text \<open>\<^verbatim>\<open>Object.keys\<close>: the indices of an array as decimal strings, the names of an object.\<close>

fun objectKeys :: "json \<Rightarrow> string list" where
  "objectKeys (JArr xs) = map numberToString [0..<length xs]"
| "objectKeys (JObj kvs) = map fst kvs"
| "objectKeys v = []"

text \<open>
  \<^verbatim>\<open>keys.sort(compare)\<close>, as a stable insertion sort: an element goes before the first
  one it does not compare greater than.
\<close>

fun insertBy :: "(string \<Rightarrow> string \<Rightarrow> int) \<Rightarrow> string \<Rightarrow> string list \<Rightarrow> string list" where
  "insertBy cmp x [] = [x]"
| "insertBy cmp x (y # ys) = (if cmp x y \<le> 0 then x # y # ys else y # insertBy cmp x ys)"

definition sortBy :: "(string \<Rightarrow> string \<Rightarrow> int) \<Rightarrow> string list \<Rightarrow> string list" where
  "sortBy cmp xs = foldr (insertBy cmp) xs []"

text \<open>The getter \<^verbatim>\<open>isOpen\<close>.\<close>

definition isOpen :: "formatter \<Rightarrow> bool" where
  "isOpen f = (case isOpenField f of Some b \<Rightarrow> b | None \<Rightarrow> positive (openDepth f))"

text \<open>The getter \<^verbatim>\<open>keys\<close>.\<close>

definition keys :: "formatter \<Rightarrow> configuration \<Rightarrow> string list" where
  "keys f c =
     (if isObject (json f) then
        (case sortPropertiesBy c of
           Some cmp \<Rightarrow> if \<not> isArray (json f) then sortBy cmp (objectKeys (json f))
                       else objectKeys (json f)
         | None \<Rightarrow> objectKeys (json f))
      else [])"

text \<open>The getters \<^verbatim>\<open>isEmptyObject\<close> and \<^verbatim>\<open>isEmpty\<close>.\<close>

definition isEmptyObject :: "formatter \<Rightarrow> configuration \<Rightarrow> bool" where
  "isEmptyObject f c = (length (keys f c) = 0 \<and> \<not> isArray (json f))"

definition isEmpty :: "formatter \<Rightarrow> configuration \<Rightarrow> bool" where
  "isEmpty f c = (isEmptyObject f c \<or> (length (keys f c) = 0 \<and> isArray (json f)))"

text \<open>
  \<^verbatim>\<open>this.json[key]\<close>, which the code reads at the keys of an object or array only.
  A name that is not a member reads as \<^verbatim>\<open>undefined\<close>.
\<close>

fun getMember :: "json \<Rightarrow> string \<Rightarrow> json" where
  "getMember (JArr xs) k =
     (case map_of (zip (objectKeys (JArr xs)) xs) k of Some v \<Rightarrow> v | None \<Rightarrow> JUndefined)"
| "getMember (JObj kvs) k = (case map_of kvs k of Some v \<Rightarrow> v | None \<Rightarrow> JUndefined)"
| "getMember v k = JUndefined"

text \<open>The number of containers and members below a value, which bounds the recursion of rendering.\<close>

fun jsize :: "json \<Rightarrow> nat" where
  "jsize (JArr xs) = Suc (sum_list (map jsize xs))"
| "jsize (JObj kvs) = Suc (sum_list (map (\<lambda>kv. jsize (snd kv)) kvs))"
| "jsize v = 0"

subsection \<open>The constructor\<close>

definition orDefault :: "'a option \<Rightarrow> 'a option \<Rightarrow> 'a option" where
  "orDefault v d = (case v of None \<Rightarrow> d | Some x \<Rightarrow> Some x)"

text \<open>
  The constructor assigns the default to each of five options that is \<^verbatim>\<open>undefined\<close> in
  the configuration object it was given (\<open>applyDefaults\<close>), which is the object of the
  environment, and pads the empty key. The parameter defaults (\<^verbatim>\<open>open = 1\<close>,
  \<^verbatim>\<open>config = _defaultConfig\<close>) are those of a caller that leaves the argument out.
\<close>

definition applyDefaults :: "configuration \<Rightarrow> configuration" where
  "applyDefaults c =
     (let c1 = c\<lparr>hoverPreviewEnabled :=
                   orDefault (hoverPreviewEnabled c) (hoverPreviewEnabled defaultConfig)\<rparr>;
          c2 = c1\<lparr>hoverCopyEnabled :=
                   orDefault (hoverCopyEnabled c1) (hoverCopyEnabled defaultConfig)\<rparr>;
          c3 = c2\<lparr>hoverPreviewArrayCount :=
                   orDefault (hoverPreviewArrayCount c2) (hoverPreviewArrayCount defaultConfig)\<rparr>;
          c4 = c3\<lparr>hoverPreviewFieldCount :=
                   orDefault (hoverPreviewFieldCount c3) (hoverPreviewFieldCount defaultConfig)\<rparr>
      in c4\<lparr>useToJSON := orDefault (useToJSON c4) (useToJSON defaultConfig)\<rparr>)"

definition constructor :: "json \<Rightarrow> depth \<Rightarrow> string option \<Rightarrow> env \<Rightarrow> formatter \<times> env" where
  "constructor j d k s =
     (Formatter j d (if k = Some [] then Some ''\"\"'' else k) None None,
      s\<lparr>config := applyDefaults (config s)\<rparr>)"

subsection \<open>The type of a value and its serialization hook\<close>

text \<open>What JavaScript takes for true in a condition.\<close>

fun truthy :: "json \<Rightarrow> bool" where
  "truthy JUndefined = False"
| "truthy JNull = False"
| "truthy (JBool b) = b"
| "truthy (JNum n) = (n \<noteq> 0)"
| "truthy (JStr s) = (s \<noteq> [])"
| "truthy (JArr xs) = True"
| "truthy (JObj kvs) = True"

definition truthyOption :: "bool option \<Rightarrow> bool" where
  "truthyOption b = (b = Some True)"

text \<open>
  \<^verbatim>\<open>this.json['toJSON']\<close>: the member of that name of an object. The arrays, strings,
  numbers and booleans of the model have no such member.
\<close>

fun toJSONMember :: "json \<Rightarrow> json" where
  "toJSONMember (JObj kvs) = (case map_of kvs ''toJSON'' of Some v \<Rightarrow> v | None \<Rightarrow> JUndefined)"
| "toJSONMember v = JUndefined"

text \<open>The getters \<^verbatim>\<open>type\<close> and \<^verbatim>\<open>useToJSON\<close>.\<close>

definition typeOf :: "formatter \<Rightarrow> configuration \<Rightarrow> string" where
  "typeOf f c =
     (if truthyOption (useToJSON c) \<and> truthy (json f) \<and> truthy (toJSONMember (json f))
      then ''stringifiable'' else getType (json f))"

definition useToJSONOf :: "formatter \<Rightarrow> configuration \<Rightarrow> bool" where
  "useToJSONOf f c = (truthyOption (useToJSON c) \<and> typeOf f c = ''stringifiable'')"

subsection \<open>Rendering and the synchronous attach\<close>

text \<open>
  What can be thrown: a \<^verbatim>\<open>TypeError\<close> by a call of what is no function and by a read
  of a property of \<^verbatim>\<open>undefined\<close>, an \<^verbatim>\<open>InvalidCharacterError\<close> by
  \<^verbatim>\<open>classList.add\<close> on a class with white space. An operation returns the error or the
  node, and the environment as it is then; the state of a node after an exception is not
  kept.
\<close>

datatype error = TypeError | InvalidCharacterError

definition whiteSpace :: "char \<Rightarrow> bool" where
  "whiteSpace ch = (ch \<in> set [CHR '' '', CHR 0x09, CHR 0x0A, CHR 0x0C, CHR 0x0D])"

text \<open>
  The class \<^verbatim>\<open>render\<close> adds to the row for the theme: none when the theme is not set or
  empty; a theme whose class holds white space makes \<^verbatim>\<open>classList.add\<close> throw.
\<close>

definition themeClassOf :: "configuration \<Rightarrow> error + string option" where
  "themeClassOf c =
     (case theme c of
        None \<Rightarrow> Inr None
      | Some t \<Rightarrow>
          if t = [] then Inr None
          else if list_ex whiteSpace (cssClass t) then Inl InvalidCharacterError
          else Inr (Some (cssClass t)))"

text \<open>
  The classes \<^verbatim>\<open>render\<close> gives the children container.
\<close>

definition classesOfChildren :: "formatter \<Rightarrow> configuration \<Rightarrow> string list" where
  "classesOfChildren f c =
     (if isObject (json f) then [cssClass ''object''] else []) @
     (if isArray (json f) then [cssClass ''array''] else []) @
     (if isEmpty f c then [cssClass ''empty''] else [])"

text \<open>\<^verbatim>\<open>children.appendChild(formatter.render())\<close> on the children container of a node.\<close>

fun appendChild :: "formatter \<Rightarrow> formatter \<Rightarrow> formatter" where
  "appendChild r (Formatter j d k io (Some (Element oc th cls rows))) =
     Formatter j d k io (Some (Element oc th cls (rows @ [r])))"
| "appendChild r (Formatter j d k io None) = Formatter j d k io None"

text \<open>
  \<^verbatim>\<open>render\<close> assigns \<^verbatim>\<open>this.element\<close>. Where the getter \<^verbatim>\<open>useToJSON\<close> holds it takes
  the branch of the primitive values and calls \<^verbatim>\<open>this.json.toJSON()\<close>; the member is a
  value of the model and no function, so the call throws. Then it adds the theme class,
  which may throw, and the class \<^verbatim>\<open>open\<close>, and for an open object or array it calls
  \<^verbatim>\<open>this.appendChildren()\<close>. \<open>appendChildrenSync\<close> is the body of
  \<^verbatim>\<open>appendChildren\<close> for \<^verbatim>\<open>animated = false\<close> on a node whose element is set: the
  test of \<^verbatim>\<open>isEmpty\<close>, then the \<^verbatim>\<open>forEach\<close> over the keys, which constructs and
  renders one child per key and ends at the first child whose rendering throws. The
  environment goes through every construction.
\<close>

function render :: "formatter \<Rightarrow> env \<Rightarrow> (error + formatter) \<times> env"
  and appendChildrenSync :: "formatter \<Rightarrow> env \<Rightarrow> (error + formatter) \<times> env" where
  "render f s =
     (if useToJSONOf f (config s) then (Inl TypeError, s)
      else
        case themeClassOf (config s) of
          Inl err \<Rightarrow> (Inl err, s)
        | Inr th \<Rightarrow>
            let f1 = setElement
                       (Some (Element (isOpen f) th (classesOfChildren f (config s)) [])) f
            in if isObject (json f) \<and> isOpen f then appendChildrenSync f1 s else (Inr f1, s))"
| "appendChildrenSync f s =
     (if isEmpty f (config s) then (Inr f, s)
      else fold (\<lambda>k (acc, t).
             case acc of
               Inl err \<Rightarrow> (Inl err, t)
             | Inr g \<Rightarrow>
                 (case constructor (getMember (json f) k) (minusOne (openDepth f)) (Some k) t of
                    (ch, t1) \<Rightarrow>
                      (case render ch t1 of
                         (Inl err, t2) \<Rightarrow> (Inl err, t2)
                       | (Inr r, t2) \<Rightarrow> (Inr (appendChild r g), t2))))
             (keys f (config s)) (Inr f, s))"
  by pat_completeness auto

lemma jsize_member: "v \<in> set xs \<Longrightarrow> jsize v \<le> sum_list (map jsize xs)"
  by (induction xs) auto

lemma jsize_entry:
  "(k, v) \<in> set kvs \<Longrightarrow> jsize v \<le> sum_list (map (\<lambda>kv. jsize (snd kv)) kvs)"
  by (induction kvs) auto

lemma jsize_getMember: "isObject j \<Longrightarrow> jsize (getMember j k) < jsize j"
proof (cases j)
  case (JArr xs)
  show ?thesis
  proof (cases "map_of (zip (objectKeys (JArr xs)) xs) k")
    case None
    with JArr have "getMember j k = JUndefined"
      by (simp only: getMember.simps option.simps)
    with JArr show ?thesis by simp
  next
    case (Some v)
    then have "v \<in> set xs"
      by (meson map_of_SomeD set_zip_rightD)
    moreover from JArr Some have "getMember j k = v"
      by (simp only: getMember.simps option.simps)
    ultimately show ?thesis
      using JArr jsize_member [of v xs] by simp
  qed
next
  case (JObj kvs)
  show ?thesis
  proof (cases "map_of kvs k")
    case None
    with JObj show ?thesis by simp
  next
    case (Some v)
    then have "(k, v) \<in> set kvs" by (rule map_of_SomeD)
    with JObj Some show ?thesis
      using jsize_entry [of k v kvs] by simp
  qed
qed (simp_all)

lemma not_isEmpty_isObject: "\<not> isEmpty f c \<Longrightarrow> isObject (json f)"
  by (auto simp: isEmpty_def isEmptyObject_def keys_def split: if_splits)

lemma json_constructor: "constructor j d k s = (ch, t) \<Longrightarrow> json ch = j"
  by (auto simp: constructor_def)

termination render
proof (relation "measure (\<lambda>x. case x of Inl (f, s) \<Rightarrow> 2 * jsize (json f) + 1
                                     | Inr (f, s) \<Rightarrow> 2 * jsize (json f))")
  show "wf (measure (\<lambda>x. case x of Inl (f, s) \<Rightarrow> 2 * jsize (json f) + 1
                                     | Inr (f, s) \<Rightarrow> 2 * jsize (json f)))"
    by simp
next
  fix f :: formatter and s :: env and th x
  assume "x = setElement (Some (Element (isOpen f) th (classesOfChildren f (config s)) [])) f"
  then have "json x = json f" by (cases f) simp
  then show "(Inr (x, s), Inl (f, s))
      \<in> measure (\<lambda>x. case x of Inl (f, s) \<Rightarrow> 2 * jsize (json f) + 1
                               | Inr (f, s) \<Rightarrow> 2 * jsize (json f))"
    by simp
next
  fix f :: formatter and s :: env and k :: string and t :: env and ch t1
  assume ne: "\<not> isEmpty f (config s)"
    and c: "(ch, t1) = constructor (getMember (json f) k) (minusOne (openDepth f)) (Some k) t"
  have "json ch = getMember (json f) k"
    using c json_constructor [of "getMember (json f) k" _ _ t ch t1] by simp
  then show "(Inl (ch, t1), Inr (f, s))
      \<in> measure (\<lambda>x. case x of Inl (f, s) \<Rightarrow> 2 * jsize (json f) + 1
                               | Inr (f, s) \<Rightarrow> 2 * jsize (json f))"
    using jsize_getMember [OF not_isEmpty_isObject [OF ne], of k] by simp
qed

declare render.simps [simp del] appendChildrenSync.simps [simp del]

subsection \<open>What rendering does to the environment\<close>

definition withDefaults :: "env \<Rightarrow> env" where
  "withDefaults s = s\<lparr>config := applyDefaults (config s)\<rparr>"

lemma snd_constructor: "snd (constructor j d k s) = withDefaults s"
  by (simp add: withDefaults_def constructor_def)

lemma applyDefaults_idem: "applyDefaults (applyDefaults c) = applyDefaults c"
  by (simp add: applyDefaults_def Let_def orDefault_def split: option.splits)

lemma withDefaults_idem: "withDefaults (withDefaults s) = withDefaults s"
  by (simp add: withDefaults_def applyDefaults_idem)

lemma fold_env_invariant:
  assumes step: "\<And>k a t. k \<in> set ks \<Longrightarrow> P t \<Longrightarrow> P (snd (step k (a, t)))"
    and start: "P t"
  shows "P (snd (fold step ks (a, t)))"
  using step start
proof (induction ks arbitrary: a t)
  case Nil
  then show ?case by simp
next
  case (Cons k ks)
  obtain a' t' where st: "step k (a, t) = (a', t')" by (cases "step k (a, t)")
  have "P t'" using Cons.prems(1) [of k t a] Cons.prems(2) st by simp
  then have "P (snd (fold step ks (a', t')))"
    using Cons.IH [of t' a'] Cons.prems(1) by simp
  then show ?case using st by simp
qed

lemma render_env:
  "snd (render f s) = s \<or> snd (render f s) = withDefaults s"
  "snd (appendChildrenSync f s) = s \<or> snd (appendChildrenSync f s) = withDefaults s"
proof (induction f s and f s rule: render_appendChildrenSync.induct)
  case (1 f s)
  then show ?case
    by (auto simp: render.simps [of f s] Let_def split: sum.splits)
next
  case (2 f s)
  show ?case
  proof (cases "isEmpty f (config s)")
    case True
    then show ?thesis by (simp add: appendChildrenSync.simps [of f s])
  next
    case False
    let ?P = "\<lambda>t. t = s \<or> t = withDefaults s"
    let ?step = "\<lambda>k (acc, t).
             case acc of
               Inl err \<Rightarrow> (Inl err, t)
             | Inr g \<Rightarrow>
                 (case constructor (getMember (json f) k) (minusOne (openDepth f)) (Some k) t of
                    (ch, t1) \<Rightarrow>
                      (case render ch t1 of
                         (Inl err, t2) \<Rightarrow> (Inl err, t2)
                       | (Inr r, t2) \<Rightarrow> (Inr (appendChild r g), t2)))"
    have "?P (snd (fold ?step (keys f (config s)) (Inr f, s)))"
    proof (rule fold_env_invariant [where P = ?P])
      fix k a t
      assume k: "k \<in> set (keys f (config s))" and t: "?P t"
      show "?P (snd (?step k (a, t)))"
      proof (cases a)
        case (Inl err)
        with t show ?thesis by simp
      next
        case (Inr g)
        obtain ch t1
          where c: "constructor (getMember (json f) k) (minusOne (openDepth f)) (Some k) t = (ch, t1)"
          by (cases "constructor (getMember (json f) k) (minusOne (openDepth f)) (Some k) t")
        have t1: "t1 = withDefaults s"
          using snd_constructor [of "getMember (json f) k" "minusOne (openDepth f)" "Some k" t] c t
          by (auto simp: withDefaults_idem)
        have "snd (render ch t1) = t1 \<or> snd (render ch t1) = withDefaults t1"
          using "2.IH" [OF False k refl c [symmetric]] by simp
        then have "snd (render ch t1) = withDefaults s"
          using t1 by (auto simp: withDefaults_idem)
        then show ?thesis
          using c Inr by (auto split: prod.splits sum.splits)
      qed
    qed simp
    then show ?thesis using False by (simp add: appendChildrenSync.simps [of f s])
  qed
qed

lemma json_appendChild: "json (appendChild r f) = json f"
  by (cases "(r, f)" rule: appendChild.cases) simp_all

lemma keys_cong:
  "json g = json f \<Longrightarrow> sortPropertiesBy c' = sortPropertiesBy c \<Longrightarrow> keys g c' = keys f c"
  by (auto simp: keys_def split: option.splits)

lemma sortPropertiesBy_withDefaults:
  "sortPropertiesBy (config (withDefaults s)) = sortPropertiesBy (config s)"
  by (simp add: withDefaults_def applyDefaults_def Let_def)

lemma sortPropertiesBy_render:
  "sortPropertiesBy (config (snd (render f s))) = sortPropertiesBy (config s)"
  using render_env(1) [of f s] by (auto simp: sortPropertiesBy_withDefaults)

subsection \<open>The animated attach and detach\<close>

text \<open>
  \<^verbatim>\<open>window.requestAnimationFrame || function (cb) { cb(); return 0; }\<close>. The call is
  counted. With a frame clock the callback joins the callbacks that wait for the next
  frame and the caller goes on; without one the fallback runs the callback at once, which
  the caller of \<open>requestAnimationFrame\<close> does in the model.
\<close>

definition requestAnimationFrame :: "callback \<Rightarrow> env \<Rightarrow> env" where
  "requestAnimationFrame cb s =
     s\<lparr>frames := Suc (frames s), queue := (if clock s then queue s @ [cb] else queue s)\<rparr>"

text \<open>
  The closure \<^verbatim>\<open>addAChild\<close> of \<^verbatim>\<open>appendChildren\<close> with its counter \<^verbatim>\<open>index\<close>.
  \<^verbatim>\<open>this.keys[index]\<close> beyond the keys is \<^verbatim>\<open>undefined\<close>, which as a member name reads
  the member \<^verbatim>\<open>"undefined"\<close> and as a key is no key. Where the rendering of a child
  throws, the closure ends with the error and the node as it is then, with the children
  attached so far.
\<close>

function addAChild :: "formatter \<Rightarrow> nat \<Rightarrow> env \<Rightarrow> (error \<times> formatter + formatter) \<times> env" where
  "addAChild f index s =
     (let ks = keys f (config s);
          key = (if index < length ks then Some (ks ! index) else None);
          member = getMember (json f) (case key of Some k \<Rightarrow> k | None \<Rightarrow> ''undefined'')
      in case constructor member (minusOne (openDepth f)) key s of
           (formatter, s1) \<Rightarrow>
             (case render formatter s1 of
                (Inl err, s2) \<Rightarrow> (Inl (err, f), s2)
              | (Inr row, s2) \<Rightarrow>
                  (let g = appendChild row f;
                       index' = index + 1
                   in if index' < length (keys g (config s2)) then
                        if index' > MAX_ANIMATED_TOGGLE_ITEMS then addAChild g index' s2
                        else if clock s2
                          then (Inr g, requestAnimationFrame (AddAChild index') s2)
                          else addAChild g index' (requestAnimationFrame (AddAChild index') s2)
                      else (Inr g, s2))))"
  by pat_completeness auto
termination addAChild
proof (relation "measure (\<lambda>(f, index, s). length (keys f (config s)) - index)")
  show "wf (measure (\<lambda>(f, index, s). length (keys f (config s)) - index))"
    by simp
next
  fix f :: formatter and index :: nat and s :: env
    and ks key member x formatter s1 xa row s2 g index' y
  assume ks: "ks = keys f (config s)"
    and c: "(formatter, s1) = constructor member (minusOne (openDepth f)) key s"
    and r: "(xa, s2) = render formatter s1"
    and g: "g = appendChild row f"
    and i: "index' = index + 1"
    and lt: "index' < length (keys g (config s2))"
  have s1: "s1 = withDefaults s"
    using snd_constructor [of member "minusOne (openDepth f)" key s] c [symmetric] by simp
  have "sortPropertiesBy (config s2) = sortPropertiesBy (config s1)"
    using sortPropertiesBy_render [of formatter s1] r [symmetric] by simp
  then have sp: "sortPropertiesBy (config s2) = sortPropertiesBy (config s)"
    using s1 by (simp add: sortPropertiesBy_withDefaults)
  have k: "keys g (config s2) = keys f (config s)"
    by (rule keys_cong) (simp_all add: g sp json_appendChild)
  show "((g, index', s2), f, index, s)
      \<in> measure (\<lambda>(f, index, s). length (keys f (config s)) - index)"
    using lt i k by simp
  have "keys g (config (requestAnimationFrame (AddAChild index') s2)) = keys f (config s)"
    using k by (simp add: requestAnimationFrame_def keys_def)
  then show "((g, index', requestAnimationFrame (AddAChild index') s2), f, index, s)
      \<in> measure (\<lambda>(f, index, s). length (keys f (config s)) - index)"
    using lt i k by simp
qed

declare addAChild.simps [simp del]

text \<open>
  The closure \<^verbatim>\<open>removeAChild\<close> of \<^verbatim>\<open>removeChildren\<close> with its counter
  \<^verbatim>\<open>childrenRemoved\<close>: while the container has a row, remove the first one.
\<close>

fun removeAChild :: "formatter \<Rightarrow> nat \<Rightarrow> env \<Rightarrow> formatter \<times> env" where
  "removeAChild (Formatter j d k io (Some (Element oc th cls (row # rows)))) childrenRemoved s =
     (let g = Formatter j d k io (Some (Element oc th cls rows));
          childrenRemoved' = childrenRemoved + 1
      in if childrenRemoved' > MAX_ANIMATED_TOGGLE_ITEMS then removeAChild g childrenRemoved' s
         else if clock s then (g, requestAnimationFrame (RemoveAChild childrenRemoved') s)
         else removeAChild g childrenRemoved' (requestAnimationFrame (RemoveAChild childrenRemoved') s))"
| "removeAChild f childrenRemoved s = (f, s)"

text \<open>
  A callback called by the frame clock. An exception in it is reported to the window and
  reaches no caller: it ends the callback, and the node stays as the callback left it.
\<close>

fun runCallback :: "callback \<Rightarrow> formatter \<Rightarrow> env \<Rightarrow> formatter \<times> env" where
  "runCallback (AddAChild index) f s =
     (case addAChild f index s of (Inl (err, g), t) \<Rightarrow> (g, t) | (Inr g, t) \<Rightarrow> (g, t))"
| "runCallback (RemoveAChild childrenRemoved) f s = removeAChild f childrenRemoved s"

text \<open>
  A frame of the frame clock: the callbacks that waited are called in the order in which
  they were requested; what they request waits for the frame after. \<open>runFrames n\<close> is
  \<open>n\<close> frames with no operation in between.

  A closure keeps the children container of the element its node had when the operation
  was called, and \<^verbatim>\<open>render\<close> alone replaces the element of a node. The frames of the
  model act on the element the node has, which is that container as long as the node is
  not rendered again while callbacks wait.
\<close>

definition runFrame :: "formatter \<Rightarrow> env \<Rightarrow> formatter \<times> env" where
  "runFrame f s = fold (\<lambda>cb (g, t). runCallback cb g t) (queue s) (f, s\<lparr>queue := []\<rparr>)"

fun runFrames :: "nat \<Rightarrow> formatter \<Rightarrow> env \<Rightarrow> formatter \<times> env" where
  "runFrames 0 f s = (f, s)"
| "runFrames (Suc n) f s = (case runFrame f s of (g, t) \<Rightarrow> runFrames n g t)"

subsection \<open>Attach and detach\<close>

text \<open>A parameter \<^verbatim>\<open>animated: boolean = false\<close>: an argument \<^verbatim>\<open>undefined\<close> takes the default.\<close>

definition animatedOrDefault :: "bool option \<Rightarrow> bool" where
  "animatedOrDefault a = (case a of None \<Rightarrow> False | Some b \<Rightarrow> b)"

text \<open>
  \<^verbatim>\<open>appendChildren\<close>. \<^verbatim>\<open>this.element.querySelector\<close> on a formatter that was never
  rendered reads a property of \<^verbatim>\<open>undefined\<close>, which throws. A rendered row always holds
  its children container, so \<^verbatim>\<open>!children\<close> is false whenever the element exists.
\<close>

definition appendChildren :: "bool option \<Rightarrow> formatter \<Rightarrow> env \<Rightarrow> (error + formatter) \<times> env" where
  "appendChildren animated f s =
     (case element f of
        None \<Rightarrow> (Inl TypeError, s)
      | Some e \<Rightarrow>
          if isEmpty f (config s) then (Inr f, s)
          else if animatedOrDefault animated then
            if clock s then (Inr f, requestAnimationFrame (AddAChild 0) s)
            else (case addAChild f 0 (requestAnimationFrame (AddAChild 0) s) of
                    (Inl (err, g), t) \<Rightarrow> (Inl err, t)
                  | (Inr g, t) \<Rightarrow> (Inr g, t))
          else appendChildrenSync f s)"

text \<open>\<^verbatim>\<open>childrenElement.innerHTML = ''\<close>.\<close>

fun clearChildren :: "formatter \<Rightarrow> formatter" where
  "clearChildren (Formatter j d k io (Some (Element oc th cls rows))) =
     Formatter j d k io (Some (Element oc th cls []))"
| "clearChildren (Formatter j d k io None) = Formatter j d k io None"

definition removeChildren :: "bool option \<Rightarrow> formatter \<Rightarrow> env \<Rightarrow> (error + formatter) \<times> env" where
  "removeChildren animated f s =
     (case element f of
        None \<Rightarrow> (Inl TypeError, s)
      | Some e \<Rightarrow>
          if animatedOrDefault animated then
            if clock s then (Inr f, requestAnimationFrame (RemoveAChild 0) s)
            else (case removeAChild f 0 (requestAnimationFrame (RemoveAChild 0) s) of
                    (g, t) \<Rightarrow> (Inr g, t))
          else (Inr (clearChildren f), s))"

subsection \<open>The public operations\<close>

text \<open>\<^verbatim>\<open>classList.add\<close>, \<^verbatim>\<open>remove\<close> and \<^verbatim>\<open>toggle\<close> of the class \<^verbatim>\<open>open\<close> on the row.\<close>

fun setOpenClass :: "bool \<Rightarrow> formatter \<Rightarrow> formatter" where
  "setOpenClass b (Formatter j d k io (Some (Element oc th cls rows))) =
     Formatter j d k io (Some (Element b th cls rows))"
| "setOpenClass b (Formatter j d k io None) = Formatter j d k io None"

fun toggleOpenClass :: "formatter \<Rightarrow> formatter" where
  "toggleOpenClass (Formatter j d k io (Some (Element oc th cls rows))) =
     Formatter j d k io (Some (Element (\<not> oc) th cls rows))"
| "toggleOpenClass (Formatter j d k io None) = Formatter j d k io None"

definition toggleOpen :: "formatter \<Rightarrow> env \<Rightarrow> (error + formatter) \<times> env" where
  "toggleOpen f s =
     (let f1 = setIsOpen (\<not> isOpen f) f
      in case element f1 of
           None \<Rightarrow> (Inr f1, s)
         | Some e \<Rightarrow>
             (case (if isOpen f1 then appendChildren (animateOpen (config s)) f1 s
                    else removeChildren (animateClose (config s)) f1 s) of
                (Inl err, s2) \<Rightarrow> (Inl err, s2)
              | (Inr f2, s2) \<Rightarrow> (Inr (toggleOpenClass f2), s2)))"

text \<open>\<^verbatim>\<open>openAtDepth(depth)\<close>; a caller that leaves the depth out passes 1.\<close>

definition openAtDepth :: "depth \<Rightarrow> formatter \<Rightarrow> env \<Rightarrow> (error + formatter) \<times> env" where
  "openAtDepth d f s =
     (if negative d then (Inr f, s)
      else
        let f1 = setIsOpen (d \<noteq> Finite 0) (setOpenDepth d f)
        in case element f1 of
             None \<Rightarrow> (Inr f1, s)
           | Some e \<Rightarrow>
               (case removeChildren (Some False) f1 s of
                  (Inl err, s2) \<Rightarrow> (Inl err, s2)
                | (Inr f2, s2) \<Rightarrow>
                    if d = Finite 0 then (Inr (setOpenClass False f2), s2)
                    else
                      (case appendChildren (animateOpen (config s2)) f2 s2 of
                         (Inl err, s3) \<Rightarrow> (Inl err, s3)
                       | (Inr f3, s3) \<Rightarrow> (Inr (setOpenClass True f3), s3))))"

subsection \<open>The inline preview\<close>

text \<open>\<^verbatim>\<open>Array.prototype.join\<close>.\<close>

fun join :: "string \<Rightarrow> string list \<Rightarrow> string" where
  "join sep [] = []"
| "join sep [x] = x"
| "join sep (x # y # ys) = x @ sep @ join sep (y # ys)"

text \<open>
  \<^verbatim>\<open>keys.slice(0, end)\<close>: everything when the end is \<^verbatim>\<open>undefined\<close>, an end below zero
  counts from the back.
\<close>

definition slice0 :: "'a list \<Rightarrow> int option \<Rightarrow> 'a list" where
  "slice0 xs e =
     (case e of
        None \<Rightarrow> xs
      | Some n \<Rightarrow> if n < 0 then take (nat (int (length xs) + n)) xs else take (nat n) xs)"

text \<open>A comparison of a length with an option: against \<^verbatim>\<open>undefined\<close> it is false.\<close>

definition lengthGreater :: "nat \<Rightarrow> int option \<Rightarrow> bool" where
  "lengthGreater l t = (case t of None \<Rightarrow> False | Some n \<Rightarrow> int l > n)"

definition lengthGreaterEq :: "nat \<Rightarrow> int option \<Rightarrow> bool" where
  "lengthGreaterEq l t = (case t of None \<Rightarrow> False | Some n \<Rightarrow> int l \<ge> n)"

fun items :: "json \<Rightarrow> json list" where
  "items (JArr xs) = xs"
| "items v = []"

text \<open>The ellipsis character U+2026, in UTF-8.\<close>

definition ellipsisMarker :: string where
  "ellipsisMarker = [char_of (226 :: nat), char_of (128 :: nat), char_of (166 :: nat)]"

definition narrowKeys :: "formatter \<Rightarrow> configuration \<Rightarrow> string list" where
  "narrowKeys f c = slice0 (keys f c) (hoverPreviewFieldCount c)"

text \<open>
  The list \<^verbatim>\<open>kvs\<close> of the pairs \<^verbatim>\<open>key:preview\<close>. \<^verbatim>\<open>getPreview\<close> of
  \<^verbatim>\<open>./helpers\<close> is not among the sources and is a parameter, a function of the value
  alone (\<^verbatim>\<open>map\<close> also passes it the index and the array).
\<close>

definition kvs :: "(json \<Rightarrow> string) \<Rightarrow> formatter \<Rightarrow> configuration \<Rightarrow> string list" where
  "kvs getPreview f c = map (\<lambda>k. k @ '':'' @ getPreview (getMember (json f) k)) (narrowKeys f c)"

definition ellipsis :: "formatter \<Rightarrow> configuration \<Rightarrow> string" where
  "ellipsis f c =
     (if lengthGreaterEq (length (keys f c)) (hoverPreviewFieldCount c) then ellipsisMarker else [])"

definition getInlinepreview :: "(json \<Rightarrow> string) \<Rightarrow> formatter \<Rightarrow> configuration \<Rightarrow> string" where
  "getInlinepreview getPreview f c =
     (if isArray (json f) then
        if lengthGreater (length (items (json f))) (hoverPreviewArrayCount c)
        then ''Array['' @ numberToString (length (items (json f))) @ '']''
        else ''['' @ join '', '' (map getPreview (items (json f))) @ '']''
      else ''{'' @ join '', '' (kvs getPreview f c) @ ellipsis f c @ ''}'')"

subsection \<open>Observations and auxiliary notions\<close>

text \<open>
  What is seen of a node: the rows in its children container (none before rendering)
  and whether its row carries the class \<^verbatim>\<open>open\<close>.
\<close>

definition rows :: "formatter \<Rightarrow> formatter list" where
  "rows f = (case element f of None \<Rightarrow> [] | Some e \<Rightarrow> childRows e)"

definition hasOpenClass :: "formatter \<Rightarrow> bool" where
  "hasOpenClass f = (case element f of None \<Rightarrow> False | Some e \<Rightarrow> openClass e)"

text \<open>
  A configuration in which the five options the constructor assigns are set, as every
  configuration is once a node has been constructed with it.
\<close>

definition defaulted :: "configuration \<Rightarrow> bool" where
  "defaulted c = (applyDefaults c = c)"

text \<open>A configuration whose theme \<^verbatim>\<open>render\<close> can add as a class.\<close>

definition themeOk :: "configuration \<Rightarrow> bool" where
  "themeOk c = (case themeClassOf c of Inl err \<Rightarrow> False | Inr th \<Rightarrow> True)"

text \<open>
  A value in which no object, at any depth, has a truthy member \<^verbatim>\<open>toJSON\<close>: the
  values on which the getter \<^verbatim>\<open>type\<close> never answers \<^verbatim>\<open>stringifiable\<close>.
\<close>

fun plain :: "json \<Rightarrow> bool" where
  "plain (JArr xs) = list_all plain xs"
| "plain (JObj members) =
     (\<not> truthy (toJSONMember (JObj members)) \<and> list_all (\<lambda>kv. plain (snd kv)) members)"
| "plain v = True"

text \<open>
  The row the body of the attach loop makes for one key: the child formatter constructed
  over the member with the depth reduced by one, rendered (the child as constructed
  where its rendering throws).
\<close>

definition childRow :: "formatter \<Rightarrow> env \<Rightarrow> string \<Rightarrow> formatter" where
  "childRow f s k =
     (case constructor (getMember (json f) k) (minusOne (openDepth f)) (Some k) s of
        (formatter, s1) \<Rightarrow>
          (case fst (render formatter s1) of Inr row \<Rightarrow> row | Inl err \<Rightarrow> formatter))"

text \<open>Appending rows to the children container one after the other.\<close>

definition appendRows :: "formatter list \<Rightarrow> formatter \<Rightarrow> formatter" where
  "appendRows rs f = fold appendChild rs f"

text \<open>
  Two states of a node that agree on the fields of the formatter, on whether it is
  rendered and on the class \<^verbatim>\<open>open\<close>: they differ in the children container at most.
\<close>

definition sameFields :: "formatter \<Rightarrow> formatter \<Rightarrow> bool" where
  "sameFields g f =
     (json g = json f \<and> openDepth g = openDepth f \<and> key g = key f
      \<and> isOpenField g = isOpenField f \<and> (element g = None) = (element f = None)
      \<and> hasOpenClass g = hasOpenClass f)"

text \<open>A depth of at least one.\<close>

fun atLeastOne :: "depth \<Rightarrow> bool" where
  "atLeastOne (Finite n) = (1 \<le> n)"
| "atLeastOne Infinity = True"

text \<open>The node without the first row of its children container.\<close>

fun dropFirstRow :: "formatter \<Rightarrow> formatter" where
  "dropFirstRow (Formatter j d k io (Some (Element oc th cls (r # rs)))) =
     Formatter j d k io (Some (Element oc th cls rs))"
| "dropFirstRow f = f"

subsection \<open>Auxiliary facts about rendering\<close>

lemma appendChild_fields [simp]:
  "json (appendChild r f) = json f"
  "openDepth (appendChild r f) = openDepth f"
  "key (appendChild r f) = key f"
  "isOpenField (appendChild r f) = isOpenField f"
  "(element (appendChild r f) = None) = (element f = None)"
  "hasOpenClass (appendChild r f) = hasOpenClass f"
  by (cases "(r, f)" rule: appendChild.cases, simp_all add: hasOpenClass_def)+

lemma rows_appendChild: "rows (appendChild r f) = (if element f = None then [] else rows f @ [r])"
  by (cases "(r, f)" rule: appendChild.cases) (simp_all add: rows_def)

lemma appendRows_fields [simp]:
  "json (appendRows rs f) = json f"
  "openDepth (appendRows rs f) = openDepth f"
  "key (appendRows rs f) = key f"
  "isOpenField (appendRows rs f) = isOpenField f"
  "(element (appendRows rs f) = None) = (element f = None)"
  "hasOpenClass (appendRows rs f) = hasOpenClass f"
  by (induction rs arbitrary: f, simp_all add: appendRows_def)+

lemma rows_appendRows: "element f \<noteq> None \<Longrightarrow> rows (appendRows rs f) = rows f @ rs"
proof (induction rs arbitrary: f)
  case Nil
  then show ?case by (simp add: appendRows_def)
next
  case (Cons r rs)
  have "rows (appendRows rs (appendChild r f)) = rows (appendChild r f) @ rs"
    using Cons.prems by (intro Cons.IH) simp
  then show ?case using Cons.prems by (simp add: appendRows_def rows_appendChild)
qed

lemma appendRows_append: "appendRows (rs @ rs') f = appendRows rs' (appendRows rs f)"
  by (simp add: appendRows_def)

lemma isOpen_cong:
  "isOpenField g = isOpenField f \<Longrightarrow> openDepth g = openDepth f \<Longrightarrow> isOpen g = isOpen f"
  by (simp add: isOpen_def split: option.splits)

lemma isOpen_appendRows [simp]: "isOpen (appendRows rs f) = isOpen f"
  by (rule isOpen_cong) simp_all

lemma setElement_fields [simp]:
  "json (setElement e f) = json f"
  "openDepth (setElement e f) = openDepth f"
  "key (setElement e f) = key f"
  "isOpenField (setElement e f) = isOpenField f"
  "element (setElement e f) = e"
  by (cases f, simp_all)+

lemma isEmpty_iff: "isEmpty f c = (keys f c = [])"
  by (auto simp: isEmpty_def isEmptyObject_def)

lemma withDefaults_id: "defaulted (config s) \<Longrightarrow> withDefaults s = s"
  by (simp add: defaulted_def withDefaults_def)

lemma render_env_id:
  assumes "defaulted (config s)"
  shows "snd (render f s) = s" and "snd (appendChildrenSync f s) = s"
  using render_env [of f s] withDefaults_id [OF assms] by auto

lemma constructor_defaulted:
  "defaulted (config s) \<Longrightarrow>
   constructor j d k s = (Formatter j d (if k = Some [] then Some ''\"\"'' else k) None None, s)"
  using withDefaults_id [of s] by (simp add: constructor_def withDefaults_def)

lemma getType_not_stringifiable: "getType j \<noteq> ''stringifiable''"
  by (cases j) simp_all

lemma useToJSONOf_iff:
  "useToJSONOf f c = (truthyOption (useToJSON c) \<and> truthy (json f) \<and> truthy (toJSONMember (json f)))"
  by (simp add: useToJSONOf_def typeOf_def getType_not_stringifiable)

lemma plain_not_useToJSONOf: "plain (json f) \<Longrightarrow> \<not> useToJSONOf f c"
  by (cases "json f") (simp_all add: useToJSONOf_iff)

lemma plain_getMember: "plain j \<Longrightarrow> plain (getMember j k)"
proof (cases j)
  case (JArr xs)
  assume p: "plain j"
  show ?thesis
  proof (cases "map_of (zip (objectKeys (JArr xs)) xs) k")
    case None
    with JArr have "getMember j k = JUndefined"
      by (simp only: getMember.simps option.simps)
    then show ?thesis by simp
  next
    case (Some v)
    then have "v \<in> set xs"
      by (meson map_of_SomeD set_zip_rightD)
    moreover from JArr Some have "getMember j k = v"
      by (simp only: getMember.simps option.simps)
    ultimately show ?thesis
      using JArr p by (simp add: list_all_iff)
  qed
next
  case (JObj members)
  assume p: "plain j"
  show ?thesis
  proof (cases "map_of members k")
    case None
    with JObj show ?thesis by simp
  next
    case (Some v)
    then have "(k, v) \<in> set members" by (rule map_of_SomeD)
    with JObj Some p show ?thesis
      by (auto simp: list_all_iff)
  qed
qed simp_all

lemma themeOk_applyDefaults: "themeOk (applyDefaults c) = themeOk c"
  by (simp add: themeOk_def themeClassOf_def applyDefaults_def Let_def)

lemma themeOk_withDefaults: "themeOk (config (withDefaults s)) = themeOk (config s)"
  by (simp add: withDefaults_def themeOk_applyDefaults)

lemma themeOk_render: "themeOk (config (snd (render f s))) = themeOk (config s)"
  using render_env(1) [of f s] by (auto simp: themeOk_withDefaults)

lemma fold_invariant:
  assumes step: "\<And>k x. k \<in> set ks \<Longrightarrow> Q x \<Longrightarrow> Q (step k x)" and start: "Q x"
  shows "Q (fold step ks x)"
  using step start by (induction ks arbitrary: x) auto

lemma render_unfold:
  "render f s =
     (if useToJSONOf f (config s) then (Inl TypeError, s)
      else
        case themeClassOf (config s) of
          Inl err \<Rightarrow> (Inl err, s)
        | Inr th \<Rightarrow>
            if isObject (json f) \<and> isOpen f
            then appendChildrenSync
                   (setElement (Some (Element (isOpen f) th (classesOfChildren f (config s)) [])) f) s
            else (Inr (setElement
                         (Some (Element (isOpen f) th (classesOfChildren f (config s)) [])) f), s))"
  by (subst render.simps) (simp only: Let_def)

lemma themeOk_E:
  assumes "themeOk c"
  obtains th where "themeClassOf c = Inr th"
  using assms by (cases "themeClassOf c") (simp_all add: themeOk_def)

lemma render_ok:
  "plain (json f) \<Longrightarrow> themeOk (config s) \<Longrightarrow> \<exists>r. fst (render f s) = Inr r"
  "plain (json f) \<Longrightarrow> themeOk (config s) \<Longrightarrow> \<exists>r. fst (appendChildrenSync f s) = Inr r"
proof (induction f s and f s rule: render_appendChildrenSync.induct)
  case (1 f s)
  obtain th where th: "themeClassOf (config s) = Inr th"
    using "1.prems"(2) by (rule themeOk_E)
  let ?f1 = "setElement (Some (Element (isOpen f) th (classesOfChildren f (config s)) [])) f"
  have nu: "\<not> useToJSONOf f (config s)"
    by (rule plain_not_useToJSONOf [OF "1.prems"(1)])
  show ?case
  proof (cases "isObject (json f) \<and> isOpen f")
    case True
    have "\<exists>r. fst (appendChildrenSync ?f1 s) = Inr r"
      using "1.IH" [OF nu th refl True] "1.prems" by simp
    then show ?thesis using nu th True by (simp add: render_unfold)
  next
    case False
    then show ?thesis using nu th by (auto simp: render_unfold)
  qed
next
  case (2 f s)
  show ?case
  proof (cases "isEmpty f (config s)")
    case True
    then show ?thesis by (simp add: appendChildrenSync.simps [of f s])
  next
    case False
    let ?Q = "\<lambda>x :: (error + formatter) \<times> env.
                (\<exists>g. fst x = Inr g) \<and> themeOk (config (snd x))"
    let ?step = "\<lambda>k (acc, t).
             case acc of
               Inl err \<Rightarrow> (Inl err, t)
             | Inr g \<Rightarrow>
                 (case constructor (getMember (json f) k) (minusOne (openDepth f)) (Some k) t of
                    (ch, t1) \<Rightarrow>
                      (case render ch t1 of
                         (Inl err, t2) \<Rightarrow> (Inl err, t2)
                       | (Inr r, t2) \<Rightarrow> (Inr (appendChild r g), t2)))"
    have "?Q (fold ?step (keys f (config s)) (Inr f, s))"
    proof (rule fold_invariant [where Q = ?Q])
      fix k :: string and x :: "(error + formatter) \<times> env"
      assume k: "k \<in> set (keys f (config s))" and x: "?Q x"
      obtain g t where xg: "x = (Inr g, t)" and tt: "themeOk (config t)"
        using x by (cases x) auto
      obtain ch t1
        where c: "constructor (getMember (json f) k) (minusOne (openDepth f)) (Some k) t = (ch, t1)"
        by (cases "constructor (getMember (json f) k) (minusOne (openDepth f)) (Some k) t")
      have jc: "json ch = getMember (json f) k"
        using c by (auto simp: constructor_def)
      have t1: "themeOk (config t1)"
        using snd_constructor [of "getMember (json f) k" "minusOne (openDepth f)" "Some k" t] c tt
        by (simp add: themeOk_withDefaults)
      have pc: "plain (json ch)"
        using jc plain_getMember [OF "2.prems"(1), of k] by simp
      obtain r where r: "fst (render ch t1) = Inr r"
        using "2.IH" [OF False k refl c [symmetric] pc t1] by blast
      obtain t2 where r2: "render ch t1 = (Inr r, t2)"
        using r by (cases "render ch t1") simp
      have "themeOk (config t2)"
        using themeOk_render [of ch t1] r2 t1 by simp
      then show "?Q (?step k x)"
        using xg c r2 by simp
    qed (simp add: "2.prems"(2))
    then show ?thesis using False by (simp add: appendChildrenSync.simps [of f s])
  qed
qed

lemma render_child:
  assumes d: "defaulted (config s)" and t: "themeOk (config s)" and p: "plain (json f)"
  shows "constructor (getMember (json f) k) (minusOne (openDepth f)) (Some k) s
           = (Formatter (getMember (json f) k) (minusOne (openDepth f))
                (if Some k = Some [] then Some ''\"\"'' else Some k) None None, s)"
    and "render (Formatter (getMember (json f) k) (minusOne (openDepth f))
                (if Some k = Some [] then Some ''\"\"'' else Some k) None None) s
           = (Inr (childRow f s k), s)"
proof -
  let ?ch = "Formatter (getMember (json f) k) (minusOne (openDepth f))
               (if Some k = Some [] then Some ''\"\"'' else Some k) None None"
  show c: "constructor (getMember (json f) k) (minusOne (openDepth f)) (Some k) s = (?ch, s)"
    by (rule constructor_defaulted [OF d])
  have "plain (json ?ch)" using plain_getMember [OF p, of k] by simp
  then obtain r where r: "fst (render ?ch s) = Inr r"
    using render_ok(1) [of ?ch s] t by blast
  then have "childRow f s k = r"
    by (simp only: childRow_def c prod.case sum.case)
  then show "render ?ch s = (Inr (childRow f s k), s)"
    using r render_env_id(1) [OF d, of ?ch] by (simp add: prod_eq_iff)
qed

lemma forEach_defaulted:
  assumes d: "defaulted (config s)" and t: "themeOk (config s)" and p: "plain (json f)"
  shows "fold (\<lambda>k (acc, t).
             case acc of
               Inl err \<Rightarrow> (Inl err, t)
             | Inr g \<Rightarrow>
                 (case constructor (getMember (json f) k) (minusOne (openDepth f)) (Some k) t of
                    (ch, t1) \<Rightarrow>
                      (case render ch t1 of
                         (Inl err, t2) \<Rightarrow> (Inl err, t2)
                       | (Inr r, t2) \<Rightarrow> (Inr (appendChild r g), t2)))) ks (Inr g, s)
         = (Inr (appendRows (map (childRow f s) ks) g), s)"
proof (induction ks arbitrary: g)
  case Nil
  show ?case by (simp add: appendRows_def)
next
  case (Cons k ks)
  show ?case
    using Cons.IH [of "appendChild (childRow f s k) g"] render_child [OF d t p, of k]
    by (simp add: appendRows_def)
qed

lemma appendChildrenSync_defaulted:
  assumes d: "defaulted (config s)" and t: "themeOk (config s)" and p: "plain (json f)"
  shows "appendChildrenSync f s = (Inr (appendRows (map (childRow f s) (keys f (config s))) f), s)"
proof (cases "isEmpty f (config s)")
  case True
  then have "keys f (config s) = []" by (simp add: isEmpty_iff)
  with True show ?thesis
    by (simp add: appendChildrenSync.simps [of f s] appendRows_def)
next
  case False
  then show ?thesis
    by (simp add: appendChildrenSync.simps [of f s] forEach_defaulted [OF d t p])
qed

lemma classesOfChildren_cong:
  "json g = json f \<Longrightarrow> sortPropertiesBy c' = sortPropertiesBy c \<Longrightarrow>
   classesOfChildren g c' = classesOfChildren f c"
  using keys_cong [of g f c' c] by (simp add: classesOfChildren_def isEmpty_iff)

lemma render_same_config:
  assumes d: "defaulted (config s)" and t: "themeOk (config s)"
  shows "config s' = config s \<Longrightarrow> plain (json f) \<Longrightarrow> fst (render f s') = fst (render f s)"
    and "config s' = config s \<Longrightarrow> plain (json f)
           \<Longrightarrow> fst (appendChildrenSync f s') = fst (appendChildrenSync f s)"
proof (induction f s' and f s' rule: render_appendChildrenSync.induct)
  case (1 f s')
  obtain th where th: "themeClassOf (config s) = Inr th"
    using t by (rule themeOk_E)
  have th': "themeClassOf (config s') = Inr th" using th "1.prems"(1) by simp
  have nu: "\<not> useToJSONOf f (config s')"
    by (rule plain_not_useToJSONOf [OF "1.prems"(2)])
  have nu0: "\<not> useToJSONOf f (config s)"
    by (rule plain_not_useToJSONOf [OF "1.prems"(2)])
  let ?f1 = "setElement (Some (Element (isOpen f) th (classesOfChildren f (config s')) [])) f"
  show ?case
  proof (cases "isObject (json f) \<and> isOpen f")
    case True
    have "fst (appendChildrenSync ?f1 s') = fst (appendChildrenSync ?f1 s)"
      using "1.IH" [OF nu th' refl True] "1.prems" by simp
    then show ?thesis
      using True "1.prems"(1) nu nu0 th th' by (simp add: render_unfold)
  next
    case False
    then show ?thesis
      using "1.prems"(1) nu nu0 th th' by (auto simp: render_unfold)
  qed
next
  case (2 f s')
  have d': "defaulted (config s')" using d "2.prems" by simp
  have t': "themeOk (config s')" using t "2.prems" by simp
  have "map (childRow f s') (keys f (config s)) = map (childRow f s) (keys f (config s))"
  proof (rule map_cong [OF refl])
    fix k assume k: "k \<in> set (keys f (config s))"
    then have ne: "\<not> isEmpty f (config s')"
      using "2.prems" by (auto simp: isEmpty_iff)
    let ?ch = "Formatter (getMember (json f) k) (minusOne (openDepth f))
               (if Some k = Some [] then Some ''\"\"'' else Some k) None None"
    note c' = render_child [OF d' t' "2.prems"(2), of k]
    note c = render_child [OF d t "2.prems"(2), of k]
    have pc: "plain (json ?ch)" using plain_getMember [OF "2.prems"(2), of k] by simp
    have "fst (render ?ch s') = fst (render ?ch s)"
      using "2.IH" [OF ne _ refl c'(1) [symmetric] "2.prems"(1) pc] k "2.prems"(1) by simp
    then show "childRow f s' k = childRow f s k"
      using c(2) c'(2) by simp
  qed
  then have "appendRows (map (childRow f s') (keys f (config s))) f
      = appendRows (map (childRow f s) (keys f (config s))) f"
    by (rule arg_cong)
  then show ?case
    using "2.prems"(1)
    by (simp only: appendChildrenSync_defaulted [OF d t "2.prems"(2)]
        appendChildrenSync_defaulted [OF d' t' "2.prems"(2)] fst_conv)
qed

lemma childRow_cong:
  assumes "defaulted (config s)" "themeOk (config s)" "config s' = config s"
    "json g = json f" "openDepth g = openDepth f" "plain (json f)"
  shows "childRow g s' k = childRow f s k"
proof -
  have d': "defaulted (config s')" and t': "themeOk (config s')" using assms by simp_all
  have pg: "plain (json g)" using assms by simp
  have pc: "plain (json (Formatter (getMember (json f) k) (minusOne (openDepth f))
               (if Some k = Some [] then Some ''\"\"'' else Some k) None None))"
    using plain_getMember [OF assms(6), of k] by simp
  show ?thesis
    using render_same_config(1) [OF assms(1,2,3) pc]
      render_child(2) [OF d' t' pg, of k] render_child(2) [OF assms(1,2,6), of k] assms(4,5)
    by simp
qed

lemma render_defaulted:
  assumes d: "defaulted (config s)" and t: "themeClassOf (config s) = Inr th"
    and p: "plain (json f)"
  shows "render f s =
     (Inr (appendRows (if isOpen f then map (childRow f s) (keys f (config s)) else [])
        (setElement (Some (Element (isOpen f) th (classesOfChildren f (config s)) [])) f)), s)"
proof -
  have tk: "themeOk (config s)" using t by (simp add: themeOk_def)
  have nu: "\<not> useToJSONOf f (config s)" by (rule plain_not_useToJSONOf [OF p])
  have k: "keys (setElement e f) (config s) = keys f (config s)" for e
    by (rule keys_cong) simp_all
  have c: "childRow (setElement e f) s = childRow f s" for e
    by (rule ext) (rule childRow_cong [OF d tk]; simp add: p)
  have pe: "plain (json (setElement e f))" for e using p by simp
  show ?thesis
  proof (cases "isObject (json f) \<and> isOpen f")
    case True
    then show ?thesis
      using nu t by (simp add: render_unfold appendChildrenSync_defaulted [OF d tk pe] k c)
  next
    case False
    then have "isOpen f \<Longrightarrow> keys f (config s) = []"
      by (auto simp: keys_def)
    with False show ?thesis
      using nu t by (auto simp: render_unfold appendRows_def)
  qed
qed

lemma childRow_fields:
  assumes "defaulted (config s)" "themeOk (config s)" "plain (json f)"
  shows "json (childRow f s k) = getMember (json f) k"
    and "key (childRow f s k) = Some (if k = [] then ''\"\"'' else k)"
    and "openDepth (childRow f s k) = minusOne (openDepth f)"
    and "element (childRow f s k) \<noteq> None"
proof -
  obtain th where th: "themeClassOf (config s) = Inr th"
    using assms(2) by (rule themeOk_E)
  define ch where "ch = Formatter (getMember (json f) k) (minusOne (openDepth f))
               (if Some k = Some [] then Some ''\"\"'' else Some k) None None"
  have fields: "json ch = getMember (json f) k" "openDepth ch = minusOne (openDepth f)"
    "key ch = Some (if k = [] then ''\"\"'' else k)"
    by (simp_all add: ch_def)
  have pc: "plain (json ch)" using plain_getMember [OF assms(3), of k] fields by simp
  have "render ch s = (Inr (childRow f s k), s)"
    unfolding ch_def by (rule render_child(2) [OF assms])
  then have eq: "childRow f s k
      = appendRows (if isOpen ch then map (childRow ch s) (keys ch (config s)) else [])
         (setElement (Some (Element (isOpen ch) th (classesOfChildren ch (config s)) [])) ch)"
    by (simp add: render_defaulted [OF assms(1) th pc])
  show "json (childRow f s k) = getMember (json f) k" by (subst eq) (simp add: fields)
  show "key (childRow f s k) = Some (if k = [] then ''\"\"'' else k)"
    by (subst eq) (simp add: fields)
  show "openDepth (childRow f s k) = minusOne (openDepth f)" by (subst eq) (simp add: fields)
  show "element (childRow f s k) \<noteq> None" by (subst eq) simp
qed

subsection \<open>Auxiliary facts about attach and detach\<close>

lemma config_requestAnimationFrame [simp]: "config (requestAnimationFrame cb s) = config s"
  by (simp add: requestAnimationFrame_def)

lemma clock_requestAnimationFrame [simp]: "clock (requestAnimationFrame cb s) = clock s"
  by (simp add: requestAnimationFrame_def)

lemma requestAnimationFrame_fallback:
  "\<not> clock s \<Longrightarrow> requestAnimationFrame cb s = s\<lparr>frames := Suc (frames s)\<rparr>"
  by (simp add: requestAnimationFrame_def)

lemma keys_appendChild [simp]: "keys (appendChild r f) c = keys f c"
  by (rule keys_cong) simp_all

lemma addAChild_step:
  assumes d: "defaulted (config s)" and t: "themeOk (config s)" and p: "plain (json f)"
    and i: "i < length (keys f (config s))"
  shows "addAChild f i s =
     (let g = appendChild (childRow f s (keys f (config s) ! i)) f
      in if Suc i < length (keys f (config s)) then
           if Suc i > MAX_ANIMATED_TOGGLE_ITEMS then addAChild g (Suc i) s
           else if clock s then (Inr g, requestAnimationFrame (AddAChild (Suc i)) s)
           else addAChild g (Suc i) (requestAnimationFrame (AddAChild (Suc i)) s)
         else (Inr g, s))"
proof -
  have k: "keys (appendChild row f) (config s) = keys f (config s)" for row
    by (rule keys_cong) simp_all
  show ?thesis
    using i render_child [OF d t p, of "keys f (config s) ! i"]
    by (subst addAChild.simps) (simp add: Let_def k)
qed

lemma addAChild_flush:
  assumes d: "defaulted (config s)" and t: "themeOk (config s)" and p: "plain (json f)"
    and i: "i < length (keys f (config s))" and m: "MAX_ANIMATED_TOGGLE_ITEMS \<le> i"
  shows "addAChild f i s
     = (Inr (appendRows (map (childRow f s) (drop i (keys f (config s)))) f), s)"
  using p i m
proof (induction "length (keys f (config s)) - i" arbitrary: f i)
  case 0
  then show ?case by simp
next
  case (Suc n)
  let ?ks = "keys f (config s)"
  let ?g = "appendChild (childRow f s (?ks ! i)) f"
  have dr: "drop i ?ks = ?ks ! i # drop (Suc i) ?ks"
    using Suc.prems(2) by (simp add: Cons_nth_drop_Suc)
  note step = addAChild_step [OF d t Suc.prems(1,2)]
  show ?case
  proof (cases "Suc i < length ?ks")
    case False
    then have "drop (Suc i) ?ks = []" by simp
    with False dr show ?thesis
      by (simp add: step appendRows_def)
  next
    case True
    have kg: "keys ?g (config s) = ?ks"
      by (rule keys_cong) simp_all
    have cr: "childRow ?g s = childRow f s"
      by (rule ext) (rule childRow_cong [OF d t]; simp add: Suc.prems(1))
    have "addAChild ?g (Suc i) s
        = (Inr (appendRows (map (childRow ?g s) (drop (Suc i) (keys ?g (config s)))) ?g), s)"
    proof (rule Suc.hyps(1))
      show "n = length (keys ?g (config s)) - Suc i" using Suc.hyps(2) kg by simp
      show "plain (json ?g)" using Suc.prems(1) by simp
      show "Suc i < length (keys ?g (config s))" using True kg by simp
      show "MAX_ANIMATED_TOGGLE_ITEMS \<le> Suc i" using Suc.prems(3) by simp
    qed
    then have "addAChild ?g (Suc i) s
        = (Inr (appendRows (map (childRow f s) (drop i ?ks)) f), s)"
      using kg cr dr by (simp add: appendRows_def)
    then show ?thesis
      using True Suc.prems(3) by (simp add: step Let_def)
  qed
qed

lemma addAChild_fallback:
  assumes d: "defaulted (config s)" and t: "themeOk (config s)" and p: "plain (json f)"
    and i: "i < length (keys f (config s))" and c: "\<not> clock s"
  shows "addAChild f i s
     = (Inr (appendRows (map (childRow f s) (drop i (keys f (config s)))) f),
        s\<lparr>frames := frames s + (min (length (keys f (config s)) - 1) MAX_ANIMATED_TOGGLE_ITEMS - i)\<rparr>)"
  using d t p i c
proof (induction "length (keys f (config s)) - i" arbitrary: f i s)
  case 0
  then show ?case by simp
next
  case (Suc n)
  let ?ks = "keys f (config s)"
  let ?g = "appendChild (childRow f s (?ks ! i)) f"
  have dr: "drop i ?ks = ?ks ! i # drop (Suc i) ?ks"
    using Suc.prems(4) by (simp add: Cons_nth_drop_Suc)
  note step = addAChild_step [OF Suc.prems(1,2,3,4)]
  show ?case
  proof (cases "Suc i < length ?ks")
    case False
    then have "drop (Suc i) ?ks = []" by simp
    moreover have "min (length ?ks - 1) MAX_ANIMATED_TOGGLE_ITEMS - i = 0"
      using False Suc.prems(4) by arith
    ultimately show ?thesis
      using False dr by (simp add: step appendRows_def)
  next
    case True
    show ?thesis
    proof (cases "Suc i > MAX_ANIMATED_TOGGLE_ITEMS")
      case flush: True
      have "min (length ?ks - 1) MAX_ANIMATED_TOGGLE_ITEMS - i = 0"
        using flush by arith
      moreover have "addAChild f i s
          = (Inr (appendRows (map (childRow f s) (drop i ?ks)) f), s)"
        using flush by (intro addAChild_flush [OF Suc.prems(1,2,3,4)]) simp
      ultimately show ?thesis by simp
    next
      case paced: False
      let ?s' = "requestAnimationFrame (AddAChild (Suc i)) s"
      have s': "?s' = s\<lparr>frames := Suc (frames s)\<rparr>"
        by (rule requestAnimationFrame_fallback [OF Suc.prems(5)])
      have kg: "keys ?g (config ?s') = ?ks"
        by (rule keys_cong) simp_all
      have cr: "childRow ?g ?s' = childRow f s"
        by (rule ext) (rule childRow_cong [OF Suc.prems(1,2)]; simp add: Suc.prems(3))
      have "addAChild ?g (Suc i) ?s'
          = (Inr (appendRows (map (childRow ?g ?s') (drop (Suc i) (keys ?g (config ?s')))) ?g),
             ?s'\<lparr>frames := frames ?s'
                + (min (length (keys ?g (config ?s')) - 1) MAX_ANIMATED_TOGGLE_ITEMS - Suc i)\<rparr>)"
      proof (rule Suc.hyps(1))
        show "n = length (keys ?g (config ?s')) - Suc i" using Suc.hyps(2) kg by simp
        show "defaulted (config ?s')" using Suc.prems(1) by simp
        show "themeOk (config ?s')" using Suc.prems(2) by simp
        show "plain (json ?g)" using Suc.prems(3) by simp
        show "Suc i < length (keys ?g (config ?s'))" using True kg by simp
        show "\<not> clock ?s'" using Suc.prems(5) by simp
      qed
      then have "addAChild ?g (Suc i) ?s'
          = (Inr (appendRows (map (childRow f s) (drop (Suc i) ?ks)) ?g),
             ?s'\<lparr>frames := frames ?s'
                + (min (length ?ks - 1) MAX_ANIMATED_TOGGLE_ITEMS - Suc i)\<rparr>)"
        by (simp only: kg cr)
      moreover have "Suc (min (length ?ks - 1) MAX_ANIMATED_TOGGLE_ITEMS - Suc i)
          = min (length ?ks - 1) MAX_ANIMATED_TOGGLE_ITEMS - i"
        using True paced by arith
      ultimately have "addAChild ?g (Suc i) ?s'
          = (Inr (appendRows (map (childRow f s) (drop i ?ks)) f),
             s\<lparr>frames := frames s + (min (length ?ks - 1) MAX_ANIMATED_TOGGLE_ITEMS - i)\<rparr>)"
        using dr by (simp add: s' appendRows_def)
      then show ?thesis
        using True paced Suc.prems(5) by (simp add: step Let_def)
    qed
  qed
qed

lemma sameFields_refl [simp]: "sameFields f f"
  by (simp add: sameFields_def)

lemma sameFields_isOpen: "sameFields g f \<Longrightarrow> isOpen g = isOpen f"
  by (rule isOpen_cong) (simp_all add: sameFields_def)

lemma sameFields_hasOpenClass: "sameFields g f \<Longrightarrow> hasOpenClass g = hasOpenClass f"
  by (simp add: sameFields_def)

lemma sameFields_element: "sameFields g f \<Longrightarrow> element f \<noteq> None \<Longrightarrow> element g \<noteq> None"
  by (simp add: sameFields_def)

lemma sameFields_appendRows [simp]: "sameFields (appendRows rs f) f"
  by (simp add: sameFields_def)

lemma clearChildren_fields [simp]:
  "json (clearChildren f) = json f"
  "openDepth (clearChildren f) = openDepth f"
  "key (clearChildren f) = key f"
  "isOpenField (clearChildren f) = isOpenField f"
  "(element (clearChildren f) = None) = (element f = None)"
  "hasOpenClass (clearChildren f) = hasOpenClass f"
  "rows (clearChildren f) = []"
  by (cases f rule: clearChildren.cases, simp_all add: rows_def hasOpenClass_def)+

lemma isOpen_clearChildren [simp]: "isOpen (clearChildren f) = isOpen f"
  by (rule isOpen_cong) simp_all

lemma clearChildren_idem [simp]: "clearChildren (clearChildren f) = clearChildren f"
  by (cases f rule: clearChildren.cases) simp_all

lemma clearChildren_no_rows: "rows f = [] \<Longrightarrow> clearChildren f = f"
  by (cases f rule: clearChildren.cases) (simp_all add: rows_def)

lemma removeAChild_flush:
  "MAX_ANIMATED_TOGGLE_ITEMS \<le> n \<Longrightarrow> removeAChild f n s = (clearChildren f, s)"
  by (induction f n s rule: removeAChild.induct) (simp_all add: Let_def)

lemma env_frames_eq:
  fixes s t :: env
  shows "config t = config s \<Longrightarrow> clock t = clock s \<Longrightarrow> queue t = queue s \<Longrightarrow>
   t = s\<lparr>frames := frames t\<rparr>"
  by (rule env.equality) simp_all

lemma removeAChild_fallback_fields:
  "\<not> clock s \<Longrightarrow>
   fst (removeAChild f n s) = clearChildren f
   \<and> config (snd (removeAChild f n s)) = config s
   \<and> clock (snd (removeAChild f n s)) = clock s
   \<and> queue (snd (removeAChild f n s)) = queue s"
  by (induction f n s rule: removeAChild.induct)
     (simp_all add: Let_def requestAnimationFrame_def)

lemma removeAChild_fallback:
  assumes "\<not> clock s"
  shows "\<exists>fr. removeAChild f n s = (clearChildren f, s\<lparr>frames := fr\<rparr>)"
proof -
  have "snd (removeAChild f n s) = s\<lparr>frames := frames (snd (removeAChild f n s))\<rparr>"
    using removeAChild_fallback_fields [OF assms, of f n] by (intro env_frames_eq) simp_all
  then have "removeAChild f n s = (clearChildren f, s\<lparr>frames := frames (snd (removeAChild f n s))\<rparr>)"
    using removeAChild_fallback_fields [OF assms, of f n] by (simp add: prod_eq_iff)
  then show ?thesis by blast
qed

lemma removeAChild_config: "config (snd (removeAChild f n s)) = config s"
  by (induction f n s rule: removeAChild.induct) (simp_all add: Let_def)

lemma removeAChild_sameFields: "sameFields (fst (removeAChild f n s)) f"
  by (induction f n s rule: removeAChild.induct)
     (simp_all add: Let_def sameFields_def hasOpenClass_def)

lemma addAChild_config:
  "defaulted (config s) \<Longrightarrow> config (snd (addAChild f i s)) = config s"
proof (induction f i s rule: addAChild.induct)
  case (1 f index s)
  let ?ks = "keys f (config s)"
  let ?key = "if index < length ?ks then Some (?ks ! index) else None"
  let ?member = "getMember (json f) (case ?key of Some k \<Rightarrow> k | None \<Rightarrow> ''undefined'')"
  obtain ch where c: "constructor ?member (minusOne (openDepth f)) ?key s = (ch, s)"
    by (simp add: constructor_defaulted [OF "1.prems"])
  obtain a where r: "render ch s = (a, s)"
    using render_env_id(1) [OF "1.prems", of ch] by (cases "render ch s") simp
  show ?case
  proof (cases a)
    case (Inl err)
    have "addAChild f index s = (Inl (err, f), s)"
      using c r Inl by (subst addAChild.simps) (simp add: Let_def)
    then show ?thesis by simp
  next
    case (Inr row)
    let ?g = "appendChild row f"
    have step: "addAChild f index s =
      (if index + 1 < length (keys ?g (config s)) then
         if index + 1 > MAX_ANIMATED_TOGGLE_ITEMS then addAChild ?g (index + 1) s
         else if clock s then (Inr ?g, requestAnimationFrame (AddAChild (index + 1)) s)
         else addAChild ?g (index + 1) (requestAnimationFrame (AddAChild (index + 1)) s)
       else (Inr ?g, s))"
      using c r Inr by (subst addAChild.simps) (simp add: Let_def)
    have r': "(Inr row, s) = render ch s" using r Inr by simp
    note ih1 = "1.IH"(1) [OF refl refl refl c [symmetric] r' refl refl]
    note ih2 = "1.IH"(2) [OF refl refl refl c [symmetric] r' refl refl]
    show ?thesis
      using ih1 ih2 "1.prems" by (auto simp: step)
  qed
qed

lemma setIsOpen_fields [simp]:
  "json (setIsOpen v f) = json f"
  "openDepth (setIsOpen v f) = openDepth f"
  "key (setIsOpen v f) = key f"
  "isOpenField (setIsOpen v f) = Some v"
  "element (setIsOpen v f) = element f"
  "rows (setIsOpen v f) = rows f"
  "hasOpenClass (setIsOpen v f) = hasOpenClass f"
  "isOpen (setIsOpen v f) = v"
  by (cases f, simp_all add: rows_def hasOpenClass_def isOpen_def)+

lemma setOpenDepth_fields [simp]:
  "json (setOpenDepth d f) = json f"
  "openDepth (setOpenDepth d f) = d"
  "key (setOpenDepth d f) = key f"
  "isOpenField (setOpenDepth d f) = isOpenField f"
  "element (setOpenDepth d f) = element f"
  "rows (setOpenDepth d f) = rows f"
  "hasOpenClass (setOpenDepth d f) = hasOpenClass f"
  by (cases f, simp_all add: rows_def hasOpenClass_def)+

lemma toggleOpenClass_fields [simp]:
  "json (toggleOpenClass f) = json f"
  "openDepth (toggleOpenClass f) = openDepth f"
  "key (toggleOpenClass f) = key f"
  "isOpenField (toggleOpenClass f) = isOpenField f"
  "(element (toggleOpenClass f) = None) = (element f = None)"
  "rows (toggleOpenClass f) = rows f"
  by (cases f rule: toggleOpenClass.cases, simp_all add: rows_def)+

lemma isOpen_toggleOpenClass [simp]: "isOpen (toggleOpenClass f) = isOpen f"
  by (rule isOpen_cong) simp_all

lemma hasOpenClass_toggleOpenClass:
  "element f \<noteq> None \<Longrightarrow> hasOpenClass (toggleOpenClass f) = (\<not> hasOpenClass f)"
  by (cases f rule: toggleOpenClass.cases) (simp_all add: hasOpenClass_def)

lemma setOpenClass_fields [simp]:
  "json (setOpenClass b f) = json f"
  "openDepth (setOpenClass b f) = openDepth f"
  "key (setOpenClass b f) = key f"
  "isOpenField (setOpenClass b f) = isOpenField f"
  "(element (setOpenClass b f) = None) = (element f = None)"
  "rows (setOpenClass b f) = rows f"
  by (cases "(b, f)" rule: setOpenClass.cases, simp_all add: rows_def)+

lemma isOpen_setOpenClass [simp]: "isOpen (setOpenClass b f) = isOpen f"
  by (rule isOpen_cong) simp_all

lemma hasOpenClass_setOpenClass:
  "element f \<noteq> None \<Longrightarrow> hasOpenClass (setOpenClass b f) = b"
  by (cases "(b, f)" rule: setOpenClass.cases) (simp_all add: hasOpenClass_def)

lemma toggleOpen_rendered:
  assumes "element f \<noteq> None"
  shows "isOpen f \<Longrightarrow> removeChildren (animateClose (config s)) (setIsOpen False f) s = (Inr g, t)
           \<Longrightarrow> toggleOpen f s = (Inr (toggleOpenClass g), t)"
    and "\<not> isOpen f \<Longrightarrow> appendChildren (animateOpen (config s)) (setIsOpen True f) s = (Inr g, t)
           \<Longrightarrow> toggleOpen f s = (Inr (toggleOpenClass g), t)"
proof -
  obtain e where e: "element f = Some e" using assms by (cases "element f") auto
  show "isOpen f \<Longrightarrow> removeChildren (animateClose (config s)) (setIsOpen False f) s = (Inr g, t)
           \<Longrightarrow> toggleOpen f s = (Inr (toggleOpenClass g), t)"
    unfolding toggleOpen_def Let_def by (simp add: e)
  show "\<not> isOpen f \<Longrightarrow> appendChildren (animateOpen (config s)) (setIsOpen True f) s = (Inr g, t)
           \<Longrightarrow> toggleOpen f s = (Inr (toggleOpenClass g), t)"
    unfolding toggleOpen_def Let_def by (simp add: e)
qed

lemma removeChildren_not_animated:
  "element f \<noteq> None \<Longrightarrow> \<not> animatedOrDefault a \<Longrightarrow>
   removeChildren a f s = (Inr (clearChildren f), s)"
  by (auto simp: removeChildren_def)

lemma openAtDepth_rendered:
  assumes "element f \<noteq> None" and "\<not> negative d"
  shows "openAtDepth d f s =
     (if d = Finite 0
      then (Inr (setOpenClass False (clearChildren (setIsOpen False (setOpenDepth d f)))), s)
      else case appendChildren (animateOpen (config s))
                  (clearChildren (setIsOpen True (setOpenDepth d f))) s of
             (Inl err, s3) \<Rightarrow> (Inl err, s3)
           | (Inr f3, s3) \<Rightarrow> (Inr (setOpenClass True f3), s3))"
proof -
  obtain e where e: "element f = Some e" using assms(1) by (cases "element f") auto
  show ?thesis
    unfolding openAtDepth_def Let_def
    using assms(2) by (simp add: e removeChildren_def animatedOrDefault_def)
qed

lemma appendChildren_good:
  assumes d: "defaulted (config s)" and t: "themeOk (config s)" and p: "plain (json f)"
    and e: "element f \<noteq> None" and m: "\<not> clock s \<or> \<not> animatedOrDefault a"
  shows "\<exists>fr. appendChildren a f s
            = (Inr (appendRows (map (childRow f s) (keys f (config s))) f), s\<lparr>frames := fr\<rparr>)"
proof (cases "isEmpty f (config s)")
  case True
  then have "keys f (config s) = []" by (simp add: isEmpty_iff)
  with True e show ?thesis
    by (auto simp: appendChildren_def appendRows_def intro: exI [of _ "frames s"])
next
  case False
  show ?thesis
  proof (cases "animatedOrDefault a")
    case True
    then have c: "\<not> clock s" using m by simp
    let ?s' = "requestAnimationFrame (AddAChild 0) s"
    have s': "?s' = s\<lparr>frames := Suc (frames s)\<rparr>"
      by (rule requestAnimationFrame_fallback [OF c])
    have pos: "0 < length (keys f (config ?s'))" using False by (simp add: isEmpty_iff)
    have cr: "childRow f ?s' = childRow f s"
      by (rule ext) (rule childRow_cong [OF d t]; simp add: p)
    have "addAChild f 0 ?s'
        = (Inr (appendRows (map (childRow f ?s') (drop 0 (keys f (config ?s')))) f),
           ?s'\<lparr>frames := frames ?s'
              + (min (length (keys f (config ?s')) - 1) MAX_ANIMATED_TOGGLE_ITEMS - 0)\<rparr>)"
      using d t c by (intro addAChild_fallback [OF _ _ p pos]) simp_all
    then have "addAChild f 0 ?s'
        = (Inr (appendRows (map (childRow f s) (keys f (config s))) f),
           s\<lparr>frames := Suc (frames s)
              + (min (length (keys f (config s)) - 1) MAX_ANIMATED_TOGGLE_ITEMS)\<rparr>)"
      by (simp only: cr) (simp add: s')
    with True False e c show ?thesis
      by (auto simp: appendChildren_def)
  next
    case nonanimated: False
    have "s = s\<lparr>frames := frames s\<rparr>" by simp
    with nonanimated False e show ?thesis
      by (auto simp: appendChildren_def appendChildrenSync_defaulted [OF d t p]
          intro: exI [of _ "frames s"])
  qed
qed

lemma removeChildren_good:
  assumes e: "element f \<noteq> None" and m: "\<not> clock s \<or> \<not> animatedOrDefault a"
  shows "\<exists>fr. removeChildren a f s = (Inr (clearChildren f), s\<lparr>frames := fr\<rparr>)"
proof (cases "animatedOrDefault a")
  case True
  then have c: "\<not> clock (requestAnimationFrame (RemoveAChild 0) s)" using m by simp
  obtain fr where "removeAChild f 0 (requestAnimationFrame (RemoveAChild 0) s)
      = (clearChildren f, (requestAnimationFrame (RemoveAChild 0) s)\<lparr>frames := fr\<rparr>)"
    using removeAChild_fallback [OF c, of f 0] by blast
  then have "removeAChild f 0 (requestAnimationFrame (RemoveAChild 0) s)
      = (clearChildren f, s\<lparr>frames := fr\<rparr>)"
    using True m by (simp add: requestAnimationFrame_def)
  with True e m show ?thesis
    by (auto simp: removeChildren_def)
next
  case False
  have "s = s\<lparr>frames := frames s\<rparr>" by simp
  with False e show ?thesis
    by (auto simp: removeChildren_def intro: exI [of _ "frames s"])
qed

subsection \<open>Auxiliary facts about frames\<close>

lemma dropFirstRow_fields [simp]:
  "json (dropFirstRow f) = json f"
  "openDepth (dropFirstRow f) = openDepth f"
  "key (dropFirstRow f) = key f"
  "isOpenField (dropFirstRow f) = isOpenField f"
  "(element (dropFirstRow f) = None) = (element f = None)"
  "hasOpenClass (dropFirstRow f) = hasOpenClass f"
  "rows (dropFirstRow f) = tl (rows f)"
  "clearChildren (dropFirstRow f) = clearChildren f"
  by (cases f rule: dropFirstRow.cases, simp_all add: rows_def hasOpenClass_def)+

lemma keys_dropFirstRow [simp]: "keys (dropFirstRow f) c = keys f c"
  by (rule keys_cong) simp_all

lemma removeAChild_no_rows: "rows f = [] \<Longrightarrow> removeAChild f n s = (f, s)"
  by (cases "(f, n, s)" rule: removeAChild.cases) (simp_all add: rows_def)

lemma removeAChild_step:
  "rows f \<noteq> [] \<Longrightarrow>
   removeAChild f n s =
     (if Suc n > MAX_ANIMATED_TOGGLE_ITEMS then (clearChildren f, s)
      else if clock s then (dropFirstRow f, requestAnimationFrame (RemoveAChild (Suc n)) s)
      else removeAChild (dropFirstRow f) (Suc n) (requestAnimationFrame (RemoveAChild (Suc n)) s))"
  by (cases "(f, n, s)" rule: removeAChild.cases)
     (simp_all add: rows_def Let_def removeAChild_flush)

lemma rows_appendChild_nonempty: "element f \<noteq> None \<Longrightarrow> rows (appendChild r f) \<noteq> []"
  by (simp add: rows_appendChild)

lemma clearChildren_appendChild [simp]: "clearChildren (appendChild r f) = clearChildren f"
  by (cases "(r, f)" rule: appendChild.cases) simp_all

lemma clearChildren_appendRows [simp]: "clearChildren (appendRows rs f) = clearChildren f"
  by (induction rs arbitrary: f) (simp_all add: appendRows_def)

lemma runFrame_empty: "queue s = [] \<Longrightarrow> runFrame f s = (f, s)"
  by (simp add: runFrame_def)

lemma runFrame_one:
  "queue s = [cb] \<Longrightarrow> runFrame f s = runCallback cb f (s\<lparr>queue := []\<rparr>)"
  by (simp add: runFrame_def)

lemma runFrame_two:
  "queue s = [cb, cb'] \<Longrightarrow>
   runFrame f s =
     (case runCallback cb f (s\<lparr>queue := []\<rparr>) of (g, t) \<Rightarrow> runCallback cb' g t)"
  by (simp add: runFrame_def split: prod.splits)

lemma runFrames_Suc:
  "runFrame f s = (g, t) \<Longrightarrow> runFrames (Suc n) f s = runFrames n g t"
  by simp

lemma detach_settles:
  assumes "clock s" and "queue s = [RemoveAChild r]"
  shows "\<exists>n s'. runFrames n f s = (clearChildren f, s') \<and> queue s' = []
            \<and> config s' = config s \<and> clock s'"
  using assms
proof (induction "length (rows f)" arbitrary: f r s)
  case 0
  then have e: "rows f = []" by simp
  have "runFrame f s = (f, s\<lparr>queue := []\<rparr>)"
    using "0.prems"(2) by (simp add: runFrame_one removeAChild_no_rows [OF e])
  then have "runFrames (Suc 0) f s = (clearChildren f, s\<lparr>queue := []\<rparr>)"
    by (simp add: clearChildren_no_rows [OF e])
  then show ?case using "0.prems"(1) by (intro exI [of _ "Suc 0"] exI [of _ "s\<lparr>queue := []\<rparr>"]) simp
next
  case (Suc m)
  then have ne: "rows f \<noteq> []" by auto
  let ?s0 = "s\<lparr>queue := []\<rparr>"
  show ?case
  proof (cases "Suc r > MAX_ANIMATED_TOGGLE_ITEMS")
    case True
    have "runFrame f s = (clearChildren f, ?s0)"
      using Suc.prems(2) True by (simp add: runFrame_one removeAChild_step [OF ne])
    then have "runFrames (Suc 0) f s = (clearChildren f, ?s0)" by simp
    then show ?thesis using Suc.prems(1) by (intro exI [of _ "Suc 0"] exI [of _ ?s0]) simp
  next
    case False
    let ?s1 = "requestAnimationFrame (RemoveAChild (Suc r)) ?s0"
    have rf: "runFrame f s = (dropFirstRow f, ?s1)"
      using Suc.prems False by (simp add: runFrame_one removeAChild_step [OF ne])
    have "\<exists>n s'. runFrames n (dropFirstRow f) ?s1 = (clearChildren (dropFirstRow f), s')
            \<and> queue s' = [] \<and> config s' = config ?s1 \<and> clock s'"
    proof (rule Suc.hyps(1))
      show "m = length (rows (dropFirstRow f))" using Suc.hyps(2) by simp
      show "clock ?s1" using Suc.prems(1) by simp
      show "queue ?s1 = [RemoveAChild (Suc r)]"
        using Suc.prems(1) by (simp add: requestAnimationFrame_def)
    qed
    then obtain n s' where "runFrames n (dropFirstRow f) ?s1 = (clearChildren f, s')"
      and "queue s' = []" and "config s' = config s" and "clock s'"
      by auto
    then have "runFrames (Suc n) f s = (clearChildren f, s') \<and> queue s' = []
        \<and> config s' = config s \<and> clock s'"
      using rf by simp
    then show ?thesis by blast
  qed
qed

lemma childRow_env:
  assumes "defaulted (config s)" "themeOk (config s)" "plain (json f)" "config s' = config s"
  shows "childRow f s' = childRow f s"
  by (rule ext) (rule childRow_cong [OF assms(1,2,4) refl refl assms(3)])

lemma attach_settles:
  assumes d: "defaulted (config s)" and t: "themeOk (config s)" and p: "plain (json f)"
    and c: "clock s" and q: "queue s = [AddAChild i]" and i: "i < length (keys f (config s))"
  shows "\<exists>n s'. runFrames n f s
              = (appendRows (map (childRow f s) (drop i (keys f (config s)))) f, s')
            \<and> queue s' = [] \<and> config s' = config s \<and> clock s'"
  using d t p c q i
proof (induction "length (keys f (config s)) - i" arbitrary: f i s)
  case 0
  then show ?case by simp
next
  case (Suc m)
  let ?ks = "keys f (config s)"
  let ?s0 = "s\<lparr>queue := []\<rparr>"
  let ?g = "appendChild (childRow f s (?ks ! i)) f"
  have d0: "defaulted (config ?s0)" and t0: "themeOk (config ?s0)"
    and i0: "i < length (keys f (config ?s0))"
    using Suc.prems by simp_all
  have cr0: "childRow f ?s0 = childRow f s"
    by (rule childRow_env [OF Suc.prems(1,2,3)]) simp
  have dr: "drop i ?ks = ?ks ! i # drop (Suc i) ?ks"
    using Suc.prems(6) by (simp add: Cons_nth_drop_Suc)
  have rf: "runFrame f s =
      (case addAChild f i ?s0 of (Inl (err, g), t) \<Rightarrow> (g, t) | (Inr g, t) \<Rightarrow> (g, t))"
    using Suc.prems(5) by (simp add: runFrame_one)
  note step = addAChild_step [OF d0 t0 Suc.prems(3) i0]
  show ?case
  proof (cases "Suc i < length ?ks")
    case False
    then have "drop (Suc i) ?ks = []" by simp
    then have "runFrame f s = (appendRows (map (childRow f s) (drop i ?ks)) f, ?s0)"
      using False dr by (simp add: rf step cr0 appendRows_def)
    then have "runFrames (Suc 0) f s
        = (appendRows (map (childRow f s) (drop i ?ks)) f, ?s0)"
      by simp
    then show ?thesis
      using Suc.prems(4) by (intro exI [of _ "Suc 0"] exI [of _ ?s0]) simp
  next
    case True
    show ?thesis
    proof (cases "Suc i > MAX_ANIMATED_TOGGLE_ITEMS")
      case flush: True
      have "addAChild f i ?s0
          = (Inr (appendRows (map (childRow f ?s0) (drop i (keys f (config ?s0)))) f), ?s0)"
        using flush by (intro addAChild_flush [OF d0 t0 Suc.prems(3) i0]) simp
      then have "runFrames (Suc 0) f s
          = (appendRows (map (childRow f s) (drop i ?ks)) f, ?s0)"
        by (simp add: rf cr0)
      then show ?thesis
        using Suc.prems(4) by (intro exI [of _ "Suc 0"] exI [of _ ?s0]) simp
    next
      case paced: False
      let ?s1 = "requestAnimationFrame (AddAChild (Suc i)) ?s0"
      have rf1: "runFrame f s = (?g, ?s1)"
        using True paced Suc.prems(4) by (simp add: rf step cr0 Let_def)
      have cr1: "childRow ?g ?s1 = childRow f s"
        by (rule ext) (rule childRow_cong [OF Suc.prems(1,2)]; simp add: Suc.prems(3))
      have "\<exists>n s'. runFrames n ?g ?s1
              = (appendRows (map (childRow ?g ?s1) (drop (Suc i) (keys ?g (config ?s1)))) ?g, s')
            \<and> queue s' = [] \<and> config s' = config ?s1 \<and> clock s'"
      proof (rule Suc.hyps(1))
        show "m = length (keys ?g (config ?s1)) - Suc i" using Suc.hyps(2) by simp
        show "defaulted (config ?s1)" using Suc.prems(1) by simp
        show "themeOk (config ?s1)" using Suc.prems(2) by simp
        show "plain (json ?g)" using Suc.prems(3) by simp
        show "clock ?s1" using Suc.prems(4) by simp
        show "queue ?s1 = [AddAChild (Suc i)]"
          using Suc.prems(4) by (simp add: requestAnimationFrame_def)
        show "Suc i < length (keys ?g (config ?s1))" using True by simp
      qed
      then obtain n s' where n: "runFrames n ?g ?s1
              = (appendRows (map (childRow f s) (drop (Suc i) ?ks)) ?g, s')"
        and s': "queue s' = []" "config s' = config s" "clock s'"
        by (auto simp: cr1)
      have "runFrames (Suc n) f s = (appendRows (map (childRow f s) (drop i ?ks)) f, s')"
        using rf1 n dr by (simp add: appendRows_def)
      with s' show ?thesis by blast
    qed
  qed
qed

lemma toggle_settles:
  assumes d: "defaulted (config s)" and t: "themeOk (config s)" and p: "plain (json f)"
    and c: "clock s" and q: "queue s = [AddAChild i, RemoveAChild i]"
    and i: "i < length (keys f (config s))" and e: "element f \<noteq> None"
  shows "\<exists>n s'. runFrames n f s = (clearChildren f, s')
            \<and> queue s' = [] \<and> config s' = config s \<and> clock s'"
  using d t p c q i e
proof (induction "length (keys f (config s)) - i" arbitrary: f i s)
  case 0
  then show ?case by simp
next
  case (Suc m)
  let ?ks = "keys f (config s)"
  let ?s0 = "s\<lparr>queue := []\<rparr>"
  let ?g = "appendChild (childRow f s (?ks ! i)) f"
  have d0: "defaulted (config ?s0)" and t0: "themeOk (config ?s0)"
    and i0: "i < length (keys f (config ?s0))"
    using Suc.prems by simp_all
  have cr0: "childRow f ?s0 = childRow f s"
    by (rule childRow_env [OF Suc.prems(1,2,3)]) simp
  have rf: "runFrame f s =
     (case addAChild f i ?s0 of
        (Inl (err, g), t) \<Rightarrow> removeAChild g i t
      | (Inr g, t) \<Rightarrow> removeAChild g i t)"
    using Suc.prems(5) by (simp add: runFrame_two split: prod.splits sum.splits)
  note step = addAChild_step [OF d0 t0 Suc.prems(3) i0]
  have neg: "rows ?g \<noteq> []"
    by (rule rows_appendChild_nonempty [OF Suc.prems(7)])
  show ?case
  proof (cases "Suc i > MAX_ANIMATED_TOGGLE_ITEMS")
    case flush: True
    have "addAChild f i ?s0
        = (Inr (appendRows (map (childRow f ?s0) (drop i (keys f (config ?s0)))) f), ?s0)"
      using flush by (intro addAChild_flush [OF d0 t0 Suc.prems(3) i0]) simp
    moreover have "removeAChild g i ?s0 = (clearChildren g, ?s0)" for g
    proof (cases "rows g = []")
      case True
      then show ?thesis by (simp add: removeAChild_no_rows clearChildren_no_rows)
    next
      case False
      then show ?thesis using flush by (simp add: removeAChild_step)
    qed
    ultimately have "runFrames (Suc 0) f s = (clearChildren f, ?s0)"
      by (simp add: rf)
    then show ?thesis
      using Suc.prems(4) by (intro exI [of _ "Suc 0"] exI [of _ ?s0]) simp
  next
    case paced: False
    show ?thesis
    proof (cases "Suc i < length ?ks")
      case True
      let ?s1 = "requestAnimationFrame (AddAChild (Suc i)) ?s0"
      let ?s2 = "requestAnimationFrame (RemoveAChild (Suc i)) ?s1"
      let ?h = "dropFirstRow ?g"
      have a: "addAChild f i ?s0 = (Inr ?g, ?s1)"
        using True paced Suc.prems(4) by (simp add: step cr0 Let_def)
      have r: "removeAChild ?g i ?s1 = (?h, ?s2)"
        using paced Suc.prems(4) by (simp add: removeAChild_step [OF neg])
      have rf1: "runFrame f s = (?h, ?s2)"
        by (simp add: rf a r)
      have "\<exists>n s'. runFrames n ?h ?s2 = (clearChildren ?h, s')
              \<and> queue s' = [] \<and> config s' = config ?s2 \<and> clock s'"
      proof (rule Suc.hyps(1))
        show "m = length (keys ?h (config ?s2)) - Suc i" using Suc.hyps(2) by simp
        show "defaulted (config ?s2)" using Suc.prems(1) by simp
        show "themeOk (config ?s2)" using Suc.prems(2) by simp
        show "plain (json ?h)" using Suc.prems(3) by simp
        show "clock ?s2" using Suc.prems(4) by simp
        show "queue ?s2 = [AddAChild (Suc i), RemoveAChild (Suc i)]"
          using Suc.prems(4) by (simp add: requestAnimationFrame_def)
        show "Suc i < length (keys ?h (config ?s2))" using True by simp
        show "element ?h \<noteq> None" using Suc.prems(7) by simp
      qed
      then obtain n s' where "runFrames n ?h ?s2 = (clearChildren f, s')"
        and s': "queue s' = []" "config s' = config s" "clock s'"
        by auto
      then have "runFrames (Suc n) f s = (clearChildren f, s')"
        using rf1 by simp
      with s' show ?thesis by blast
    next
      case False
      let ?s2 = "requestAnimationFrame (RemoveAChild (Suc i)) ?s0"
      let ?h = "dropFirstRow ?g"
      have a: "addAChild f i ?s0 = (Inr ?g, ?s0)"
        using False by (simp add: step cr0 Let_def)
      have r: "removeAChild ?g i ?s0 = (?h, ?s2)"
        using paced Suc.prems(4) by (simp add: removeAChild_step [OF neg])
      have rf1: "runFrame f s = (?h, ?s2)"
        by (simp add: rf a r)
      have "\<exists>n s'. runFrames n ?h ?s2 = (clearChildren ?h, s') \<and> queue s' = []
            \<and> config s' = config ?s2 \<and> clock s'"
      proof (rule detach_settles)
        show "clock ?s2" using Suc.prems(4) by simp
        show "queue ?s2 = [RemoveAChild (Suc i)]"
          using Suc.prems(4) by (simp add: requestAnimationFrame_def)
      qed
      then obtain n s' where "runFrames n ?h ?s2 = (clearChildren f, s')"
        and s': "queue s' = []" "config s' = config s" "clock s'"
        by auto
      then have "runFrames (Suc n) f s = (clearChildren f, s')"
        using rf1 by simp
      with s' show ?thesis by blast
    qed
  qed
qed

subsection \<open>Properties of \<^verbatim>\<open>isEmpty\<close>\<close>

lemma length_insertBy: "length (insertBy cmp x xs) = Suc (length xs)"
  by (induction xs) auto

lemma length_sortBy: "length (sortBy cmp xs) = length xs"
  by (induction xs) (auto simp: sortBy_def length_insertBy)

lemma length_keys_object: "json f = JObj members \<Longrightarrow> length (keys f c) = length members"
  by (simp add: keys_def length_sortBy split: option.splits)

lemma sortBy_eq_Nil: "(sortBy cmp xs = []) = (xs = [])"
  using length_sortBy [of cmp xs] by (metis length_0_conv)

lemma isEmpty_container:
  "isObject (json f) \<Longrightarrow> isEmpty f c = (objectKeys (json f) = [])"
  by (auto simp: isEmpty_iff keys_def sortBy_eq_Nil split: option.splits)

text \<open>
  C1. \<^verbatim>\<open>isEmpty\<close> is to hold of the objects and arrays without members and of no
  primitive value. On the number 5, constructed with the default configuration, the getter
  answers true: the keys of a value that is no object are the empty list, and
  \<^verbatim>\<open>isEmptyObject\<close> asks for no more than that and for the value not being an array.
\<close>

theorem isEmpty_of_number:
  "isEmpty (fst (constructor (JNum 5) (Finite 1) None \<lparr>config = defaultConfig, frames = 0, clock = False, queue = []\<rparr>))
     defaultConfig"
  by (simp add: constructor_def isEmpty_def isEmptyObject_def keys_def)

subsection \<open>Properties of the inline preview\<close>

text \<open>
  C5. For an object with K members and a field count F, the preview holds one pair
  \<^verbatim>\<open>key:preview\<close> for each of the first F keys, \<open>min K F\<close> pairs, between braces and
  joined by commas, and the ellipsis follows the pairs exactly when \<open>F \<le> K\<close>. (A
  negative F, which is no count, makes \<^verbatim>\<open>slice\<close> drop that many keys from the end.)
\<close>

theorem object_preview:
  assumes "json f = JObj members" and "hoverPreviewFieldCount c = Some F"
  shows "kvs getPreview f c
           = map (\<lambda>k. k @ '':'' @ getPreview (getMember (json f) k))
               (take (if 0 \<le> F then nat F else length members - nat (- F)) (keys f c))
       \<and> length (kvs getPreview f c)
           = (if 0 \<le> F then min (length members) (nat F) else length members - nat (- F))
       \<and> getInlinepreview getPreview f c
           = ''{'' @ join '', '' (kvs getPreview f c)
               @ (if F \<le> int (length members) then ellipsisMarker else []) @ ''}''"
proof -
  have lk: "length (keys f c) = length members"
    by (rule length_keys_object [OF assms(1)])
  have "nat (int (length members) + F) = length members - nat (- F)" if "F < 0"
    using that by arith
  then have n: "narrowKeys f c
      = take (if 0 \<le> F then nat F else length members - nat (- F)) (keys f c)"
    using assms(2) by (simp add: narrowKeys_def slice0_def lk)
  have k: "kvs getPreview f c
      = map (\<lambda>k. k @ '':'' @ getPreview (getMember (json f) k))
          (take (if 0 \<le> F then nat F else length members - nat (- F)) (keys f c))"
    by (simp only: kvs_def n)
  have l: "length (kvs getPreview f c)
      = (if 0 \<le> F then min (length members) (nat F) else length members - nat (- F))"
    by (simp add: k lk)
  have e: "ellipsis f c = (if F \<le> int (length members) then ellipsisMarker else [])"
    using assms(2) by (simp add: ellipsis_def lengthGreaterEq_def lk)
  have g: "getInlinepreview getPreview f c
      = ''{'' @ join '', '' (kvs getPreview f c) @ ellipsis f c @ ''}''"
    using assms(1) by (simp add: getInlinepreview_def)
  show ?thesis
    by (intro conjI) (rule k, rule l, simp only: g e)
qed

theorem object_preview_witness:
  "json (Formatter (JObj [(''a'', JNum 1), (''b'', JNum 2), (''c'', JNum 3)]) (Finite 1) None None None)
     = JObj [(''a'', JNum 1), (''b'', JNum 2), (''c'', JNum 3)]
   \<and> hoverPreviewFieldCount (defaultConfig\<lparr>hoverPreviewFieldCount := Some 2\<rparr>) = Some 2
   \<and> length (kvs (\<lambda>v. ''1'')
        (Formatter (JObj [(''a'', JNum 1), (''b'', JNum 2), (''c'', JNum 3)]) (Finite 1) None None None)
        (defaultConfig\<lparr>hoverPreviewFieldCount := Some 2\<rparr>)) = 2
   \<and> getInlinepreview (\<lambda>v. ''1'')
        (Formatter (JObj [(''a'', JNum 1), (''b'', JNum 2), (''c'', JNum 3)]) (Finite 1) None None None)
        (defaultConfig\<lparr>hoverPreviewFieldCount := Some 2\<rparr>)
       = ''{a:1, b:1'' @ ellipsisMarker @ ''}''"
  using object_preview [of
      "Formatter (JObj [(''a'', JNum 1), (''b'', JNum 2), (''c'', JNum 3)]) (Finite 1) None None None"
      "[(''a'', JNum 1), (''b'', JNum 2), (''c'', JNum 3)]"
      "defaultConfig\<lparr>hoverPreviewFieldCount := Some 2\<rparr>" 2 "\<lambda>v. ''1''"]
  by (simp add: keys_def defaultConfig_def)

text \<open>
  C6. The ellipsis is to appear only when the object has more keys than the preview
  shows. With five keys and the default field count of five every key is shown, and the
  ellipsis is appended all the same: the test is \<^verbatim>\<open>keys.length >= hoverPreviewFieldCount\<close>.
\<close>

theorem ellipsis_at_field_count:
  "getInlinepreview (\<lambda>v. ''1'')
     (Formatter (JObj [(''a'', JNum 1), (''b'', JNum 2), (''c'', JNum 3), (''d'', JNum 4), (''e'', JNum 5)])
        (Finite 1) None None None)
     defaultConfig
   = ''{a:1, b:1, c:1, d:1, e:1'' @ ellipsisMarker @ ''}''"
  by (simp add: getInlinepreview_def kvs_def narrowKeys_def slice0_def ellipsis_def
      lengthGreaterEq_def keys_def defaultConfig_def)

text \<open>
  C7. For an array of length L and an array count T, the preview is the bracketed,
  comma-joined previews of the elements when \<open>L \<le> T\<close>, and \<^verbatim>\<open>Array[L]\<close> when
  \<open>L > T\<close>.
\<close>

theorem array_preview:
  assumes "json f = JArr xs" and "hoverPreviewArrayCount c = Some T"
  shows "getInlinepreview getPreview f c
     = (if int (length xs) \<le> T then ''['' @ join '', '' (map getPreview xs) @ '']''
        else ''Array['' @ numberToString (length xs) @ '']'')"
  using assms by (simp add: getInlinepreview_def lengthGreater_def)

theorem array_preview_witness:
  "json (Formatter (JArr [JNum 1, JNum 2]) (Finite 1) None None None) = JArr [JNum 1, JNum 2]
   \<and> hoverPreviewArrayCount (defaultConfig\<lparr>hoverPreviewArrayCount := Some 2\<rparr>) = Some 2
   \<and> getInlinepreview (\<lambda>v. ''1'') (Formatter (JArr [JNum 1, JNum 2]) (Finite 1) None None None)
        (defaultConfig\<lparr>hoverPreviewArrayCount := Some 2\<rparr>) = ''[1, 1]''
   \<and> json (Formatter (JArr [JNum 1, JNum 2, JNum 3]) (Finite 1) None None None)
        = JArr [JNum 1, JNum 2, JNum 3]
   \<and> getInlinepreview (\<lambda>v. ''1'') (Formatter (JArr [JNum 1, JNum 2, JNum 3]) (Finite 1) None None None)
        (defaultConfig\<lparr>hoverPreviewArrayCount := Some 2\<rparr>) = ''Array[3]''"
  using array_preview [of "Formatter (JArr [JNum 1, JNum 2]) (Finite 1) None None None"
      "[JNum 1, JNum 2]" "defaultConfig\<lparr>hoverPreviewArrayCount := Some 2\<rparr>" 2 "\<lambda>v. ''1''"]
    array_preview [of "Formatter (JArr [JNum 1, JNum 2, JNum 3]) (Finite 1) None None None"
      "[JNum 1, JNum 2, JNum 3]" "defaultConfig\<lparr>hoverPreviewArrayCount := Some 2\<rparr>" 2 "\<lambda>v. ''1''"]
  by (simp add: defaultConfig_def numberToString.simps digit_def)

subsection \<open>Properties of \<^verbatim>\<open>toggleOpen\<close>\<close>

lemma appendChildren_clock:
  "element f \<noteq> None \<Longrightarrow> clock s \<Longrightarrow> animatedOrDefault a \<Longrightarrow>
   appendChildren a f s =
     (if isEmpty f (config s) then (Inr f, s)
      else (Inr f, requestAnimationFrame (AddAChild 0) s))"
  by (auto simp: appendChildren_def)

lemma removeChildren_clock:
  "element f \<noteq> None \<Longrightarrow> clock s \<Longrightarrow> animatedOrDefault a \<Longrightarrow>
   removeChildren a f s = (Inr f, requestAnimationFrame (RemoveAChild 0) s)"
  by (auto simp: removeChildren_def)

lemma queue_requestAnimationFrame:
  "clock s \<Longrightarrow> queue (requestAnimationFrame cb s) = queue s @ [cb]"
  by (simp add: requestAnimationFrame_def)

lemma attach_result:
  assumes d: "defaulted (config s)" and t: "themeOk (config s)" and p: "plain (json f)"
    and e: "element f \<noteq> None" and q: "queue s = []"
  shows "\<exists>g s'. appendChildren a f s = (Inr g, s') \<and> sameFields g f
           \<and> config s' = config s \<and> clock s' = clock s
           \<and> (queue s' = []
                \<or> clock s \<and> animatedOrDefault a \<and> queue s' = [AddAChild 0]
                   \<and> 0 < length (keys f (config s)))"
proof (cases "clock s \<and> animatedOrDefault a")
  case True
  show ?thesis
  proof (cases "isEmpty f (config s)")
    case empty: True
    with True e q show ?thesis by (simp add: appendChildren_clock)
  next
    case False
    then have "0 < length (keys f (config s))" by (simp add: isEmpty_iff)
    with True False e q show ?thesis
      by (simp add: appendChildren_clock queue_requestAnimationFrame)
  qed
next
  case False
  then obtain fr where "appendChildren a f s
      = (Inr (appendRows (map (childRow f s) (keys f (config s))) f), s\<lparr>frames := fr\<rparr>)"
    using appendChildren_good [OF d t p e, of a] by blast
  with q show ?thesis by simp
qed

text \<open>
  C2. A rendered node that is closed is to be closed again and without children after
  two calls of \<^verbatim>\<open>toggleOpen\<close>. With a frame clock, \<^verbatim>\<open>animateOpen\<close> set and
  \<^verbatim>\<open>animateClose\<close> not set, the first call leaves the attach to the next frame and the
  second empties a container that is still empty. The node over \<^verbatim>\<open>{a: 1, b: 2}\<close> is
  closed after the two calls, and two frames later, when no callback waits any more, it
  is closed and holds the rows of both members.
\<close>

theorem toggleOpen_twice_leaves_children:
  "case constructor (JObj [(''a'', JNum 1), (''b'', JNum 2)]) (Finite 0) None
      \<lparr>config = \<lparr>hoverPreviewEnabled = None, hoverCopyEnabled = None,
                  hoverPreviewArrayCount = None, hoverPreviewFieldCount = None,
                  animateOpen = Some True, animateClose = None, theme = None,
                  useToJSON = None, sortPropertiesBy = None\<rparr>,
       frames = 0, clock = True, queue = []\<rparr> of
     (f, s) \<Rightarrow>
       (case render f s of
          (Inl err, s0) \<Rightarrow> False
        | (Inr f0, s0) \<Rightarrow>
            \<not> isOpen f0 \<and> rows f0 = [] \<and> queue s0 = []
            \<and> (case toggleOpen f0 s0 of
                 (Inl err, s1) \<Rightarrow> False
               | (Inr f1, s1) \<Rightarrow>
                   (case toggleOpen f1 s1 of
                      (Inl err, s2) \<Rightarrow> False
                    | (Inr f2, s2) \<Rightarrow>
                        \<not> isOpen f2
                        \<and> (case runFrames (Suc (Suc 0)) f2 s2 of
                             (f3, s3) \<Rightarrow>
                               queue s3 = [] \<and> \<not> isOpen f3 \<and> \<not> hasOpenClass f3
                               \<and> map key (rows f3) = [Some ''a'', Some ''b'']))))"
  by code_simp

text \<open>
  C2, as the code has it. Take a rendered node that is closed, with no callback waiting
  for a frame, over a value in which no object has a truthy member \<^verbatim>\<open>toJSON\<close>, with
  a configuration whose defaults are set (as they are once a node has been constructed
  with it) and whose theme has no white space, and let the attach not be left to the
  frame clock while the detach is not: there is no frame clock, or \<^verbatim>\<open>animateOpen\<close> is
  not set, or \<^verbatim>\<open>animateClose\<close> is set. Then both calls of \<^verbatim>\<open>toggleOpen\<close> return; the node is open
  after the first; after the second its openness and its class \<^verbatim>\<open>open\<close> are those of
  the start; and after finitely many frames no callback waits and the node has no rows,
  its openness and its class \<^verbatim>\<open>open\<close> still those of the start. Where the detach is
  not left to the frame clock, the container is empty and no callback waits as soon as the
  second call has returned.
\<close>

theorem toggleOpen_twice:
  assumes rendered: "element f \<noteq> None" and closed: "\<not> isOpen f"
    and d: "defaulted (config s)" and t: "themeOk (config s)" and p: "plain (json f)"
    and q: "queue s = []"
    and m: "\<not> clock s \<or> \<not> animatedOrDefault (animateOpen (config s))
              \<or> animatedOrDefault (animateClose (config s))"
  shows "\<exists>f1 s1 f2 s2 n f3 s3.
           toggleOpen f s = (Inr f1, s1) \<and> toggleOpen f1 s1 = (Inr f2, s2)
           \<and> isOpen f1 \<and> isOpen f2 = isOpen f \<and> hasOpenClass f2 = hasOpenClass f
           \<and> runFrames n f2 s2 = (f3, s3) \<and> queue s3 = []
           \<and> rows f3 = [] \<and> isOpen f3 = isOpen f \<and> hasOpenClass f3 = hasOpenClass f
           \<and> (clock s \<and> animatedOrDefault (animateClose (config s))
                \<or> rows f2 = [] \<and> queue s2 = [])"
proof -
  let ?f' = "setIsOpen True f"
  have e': "element ?f' \<noteq> None" using rendered by simp
  have p': "plain (json ?f')" using p by simp
  obtain g s1 where a: "appendChildren (animateOpen (config s)) ?f' s = (Inr g, s1)"
    and g: "sameFields g ?f'" and c1: "config s1 = config s" and k1: "clock s1 = clock s"
    and q1: "queue s1 = []
              \<or> clock s \<and> animatedOrDefault (animateOpen (config s)) \<and> queue s1 = [AddAChild 0]
                 \<and> 0 < length (keys ?f' (config s))"
    using attach_result [OF d t p' e' q, of "animateOpen (config s)"] by blast
  let ?f1 = "toggleOpenClass g"
  have t1: "toggleOpen f s = (Inr ?f1, s1)"
    by (rule toggleOpen_rendered(2) [OF rendered closed a])
  have eg: "element g \<noteq> None" by (rule sameFields_element [OF g e'])
  have jg: "json g = json f" using g by (simp add: sameFields_def)
  have o1: "isOpen ?f1" using sameFields_isOpen [OF g] by simp
  let ?f1' = "setIsOpen False ?f1"
  have e1': "element ?f1' \<noteq> None" using eg by simp
  have e1: "element ?f1 \<noteq> None" using eg by simp
  have hg: "hasOpenClass g = hasOpenClass f"
    using sameFields_hasOpenClass [OF g] by simp
  have h1': "hasOpenClass ?f1' = (\<not> hasOpenClass f)"
    using hasOpenClass_toggleOpenClass [OF eg] hg by simp
  show ?thesis
  proof (cases "clock s \<and> animatedOrDefault (animateClose (config s))")
    case True
    let ?s2 = "requestAnimationFrame (RemoveAChild 0) s1"
    let ?f2 = "toggleOpenClass ?f1'"
    have r: "removeChildren (animateClose (config s1)) ?f1' s1 = (Inr ?f1', ?s2)"
      using True c1 k1 by (simp add: removeChildren_clock [OF e1'])
    have t2: "toggleOpen ?f1 s1 = (Inr ?f2, ?s2)"
      by (rule toggleOpen_rendered(1) [OF e1 o1 r])
    have e2: "element ?f2 \<noteq> None" using eg by simp
    have o2: "isOpen ?f2 = isOpen f" using closed by simp
    have h2: "hasOpenClass ?f2 = hasOpenClass f"
      using hasOpenClass_toggleOpenClass [OF e1'] h1' by simp
    have cl2: "clock ?s2" and c2: "config ?s2 = config s"
      using True k1 c1 by simp_all
    have "\<exists>n s3. runFrames n ?f2 ?s2 = (clearChildren ?f2, s3) \<and> queue s3 = []
            \<and> config s3 = config ?s2 \<and> clock s3"
    proof (cases "queue s1 = []")
      case True
      show ?thesis
      proof (rule detach_settles [OF cl2])
        show "queue ?s2 = [RemoveAChild 0]"
          using True k1 \<open>clock s \<and> animatedOrDefault (animateClose (config s))\<close>
          by (simp add: queue_requestAnimationFrame)
      qed
    next
      case False
      then have qa: "queue s1 = [AddAChild 0]" and pos: "0 < length (keys ?f' (config s))"
        using q1 by simp_all
      show ?thesis
      proof (rule toggle_settles [OF _ _ _ cl2])
        show "defaulted (config ?s2)" using d c2 by simp
        show "themeOk (config ?s2)" using t c2 by simp
        show "plain (json ?f2)" using p jg by simp
        show "queue ?s2 = [AddAChild 0, RemoveAChild 0]"
          using qa k1 \<open>clock s \<and> animatedOrDefault (animateClose (config s))\<close>
          by (simp add: queue_requestAnimationFrame)
        have "keys ?f2 (config ?s2) = keys ?f' (config s)"
          by (rule keys_cong) (simp_all add: jg c1)
        then show "0 < length (keys ?f2 (config ?s2))" using pos by simp
        show "element ?f2 \<noteq> None" by (rule e2)
      qed
    qed
    then obtain n s3 where n: "runFrames n ?f2 ?s2 = (clearChildren ?f2, s3)"
      and q3: "queue s3 = []"
      by blast
    have h3: "hasOpenClass (clearChildren ?f2) = hasOpenClass f" using h2 by simp
    have o3: "isOpen (clearChildren ?f2) = isOpen f" using o2 by simp
    show ?thesis
    proof (intro exI conjI)
      show "toggleOpen f s = (Inr ?f1, s1)" by (rule t1)
      show "toggleOpen ?f1 s1 = (Inr ?f2, ?s2)" by (rule t2)
      show "isOpen ?f1" by (rule o1)
      show "isOpen ?f2 = isOpen f" by (rule o2)
      show "hasOpenClass ?f2 = hasOpenClass f" by (rule h2)
      show "runFrames n ?f2 ?s2 = (clearChildren ?f2, s3)" by (rule n)
      show "queue s3 = []" by (rule q3)
      show "rows (clearChildren ?f2) = []" by simp
      show "isOpen (clearChildren ?f2) = isOpen f" by (rule o3)
      show "hasOpenClass (clearChildren ?f2) = hasOpenClass f" by (rule h3)
      show "clock s \<and> animatedOrDefault (animateClose (config s))
          \<or> rows ?f2 = [] \<and> queue ?s2 = []"
        using True by simp
    qed
  next
    case False
    then have m1: "\<not> clock s1 \<or> \<not> animatedOrDefault (animateClose (config s1))"
      using c1 k1 by auto
    have q1': "queue s1 = []" using q1 m False by auto
    obtain fr where r: "removeChildren (animateClose (config s1)) ?f1' s1
        = (Inr (clearChildren ?f1'), s1\<lparr>frames := fr\<rparr>)"
      using removeChildren_good [OF e1' m1] by blast
    let ?s2 = "s1\<lparr>frames := fr\<rparr>"
    let ?f2 = "toggleOpenClass (clearChildren ?f1')"
    have t2: "toggleOpen ?f1 s1 = (Inr ?f2, ?s2)"
      by (rule toggleOpen_rendered(1) [OF e1 o1 r])
    have ec: "element (clearChildren ?f1') \<noteq> None" using eg by simp
    have o2: "isOpen ?f2 = isOpen f" using closed by simp
    have h2: "hasOpenClass ?f2 = hasOpenClass f"
      using hasOpenClass_toggleOpenClass [OF ec] h1' by simp
    have r2: "rows ?f2 = []" by simp
    have q2: "queue ?s2 = []" using q1' by simp
    show ?thesis
    proof (intro exI conjI)
      show "toggleOpen f s = (Inr ?f1, s1)" by (rule t1)
      show "toggleOpen ?f1 s1 = (Inr ?f2, ?s2)" by (rule t2)
      show "isOpen ?f1" by (rule o1)
      show "isOpen ?f2 = isOpen f" by (rule o2)
      show "hasOpenClass ?f2 = hasOpenClass f" by (rule h2)
      show "runFrames 0 ?f2 ?s2 = (?f2, ?s2)" by simp
      show "queue ?s2 = []" by (rule q2)
      show "rows ?f2 = []" by (rule r2)
      show "isOpen ?f2 = isOpen f" by (rule o2)
      show "hasOpenClass ?f2 = hasOpenClass f" by (rule h2)
      show "clock s \<and> animatedOrDefault (animateClose (config s))
          \<or> rows ?f2 = [] \<and> queue ?s2 = []"
        using r2 q2 by simp
    qed
  qed
qed

text \<open>
  The node over \<^verbatim>\<open>{a: 1, b: 2}\<close> with the default configuration and a frame clock:
  attach and detach are both animated.
\<close>

theorem toggleOpen_twice_witness:
  "element (Formatter (JObj [(''a'', JNum 1), (''b'', JNum 2)]) (Finite 0) None None
              (Some (Element False None [''object''] []))) \<noteq> None
   \<and> \<not> isOpen (Formatter (JObj [(''a'', JNum 1), (''b'', JNum 2)]) (Finite 0) None None
              (Some (Element False None [''object''] [])))
   \<and> defaulted (config \<lparr>config = defaultConfig, frames = 0, clock = True, queue = []\<rparr>)
   \<and> themeOk (config \<lparr>config = defaultConfig, frames = 0, clock = True, queue = []\<rparr>)
   \<and> plain (JObj [(''a'', JNum 1), (''b'', JNum 2)])
   \<and> animatedOrDefault (animateOpen defaultConfig)
   \<and> animatedOrDefault (animateClose defaultConfig)
   \<and> (\<exists>f1 s1 f2 s2 n f3 s3.
         toggleOpen (Formatter (JObj [(''a'', JNum 1), (''b'', JNum 2)]) (Finite 0) None None
              (Some (Element False None [''object''] [])))
            \<lparr>config = defaultConfig, frames = 0, clock = True, queue = []\<rparr> = (Inr f1, s1)
         \<and> toggleOpen f1 s1 = (Inr f2, s2) \<and> isOpen f1 \<and> \<not> isOpen f2
         \<and> runFrames n f2 s2 = (f3, s3) \<and> queue s3 = [] \<and> rows f3 = [] \<and> \<not> isOpen f3)"
proof -
  let ?F = "Formatter (JObj [(''a'', JNum 1), (''b'', JNum 2)]) (Finite 0) None None
              (Some (Element False None [''object''] []))"
  let ?S = "\<lparr>config = defaultConfig, frames = 0, clock = True, queue = []\<rparr>"
  have e: "element ?F \<noteq> None" by simp
  have c: "\<not> isOpen ?F" by (simp add: isOpen_def)
  have d: "defaulted (config ?S)"
    by (simp add: defaulted_def applyDefaults_def Let_def orDefault_def defaultConfig_def)
  have t: "themeOk (config ?S)"
    by (simp add: themeOk_def themeClassOf_def defaultConfig_def)
  have p: "plain (json ?F)" by simp
  have q: "queue ?S = []" by simp
  have ao: "animatedOrDefault (animateOpen defaultConfig)"
    and ac: "animatedOrDefault (animateClose defaultConfig)"
    by (simp_all add: animatedOrDefault_def defaultConfig_def)
  have m: "\<not> clock ?S \<or> \<not> animatedOrDefault (animateOpen (config ?S))
            \<or> animatedOrDefault (animateClose (config ?S))"
    using ac by simp
  from toggleOpen_twice [OF e c d t p q m] obtain f1 s1 f2 s2 n f3 s3 where
    r: "toggleOpen ?F ?S = (Inr f1, s1)" "toggleOpen f1 s1 = (Inr f2, s2)" "isOpen f1"
      "isOpen f2 = isOpen ?F" "runFrames n f2 s2 = (f3, s3)" "queue s3 = []"
      "rows f3 = []" "isOpen f3 = isOpen ?F"
    by blast
  have "\<exists>f1 s1 f2 s2 n f3 s3.
         toggleOpen ?F ?S = (Inr f1, s1)
         \<and> toggleOpen f1 s1 = (Inr f2, s2) \<and> isOpen f1 \<and> \<not> isOpen f2
         \<and> runFrames n f2 s2 = (f3, s3) \<and> queue s3 = [] \<and> rows f3 = [] \<and> \<not> isOpen f3"
  proof (intro exI conjI)
    show "toggleOpen ?F ?S = (Inr f1, s1)" by (rule r(1))
    show "toggleOpen f1 s1 = (Inr f2, s2)" by (rule r(2))
    show "isOpen f1" by (rule r(3))
    show "\<not> isOpen f2" using r(4) c by simp
    show "runFrames n f2 s2 = (f3, s3)" by (rule r(5))
    show "queue s3 = []" by (rule r(6))
    show "rows f3 = []" by (rule r(7))
    show "\<not> isOpen f3" using r(8) c by simp
  qed
  with e c d t p ao ac show ?thesis by simp
qed

subsection \<open>Properties of \<^verbatim>\<open>openAtDepth\<close>\<close>

lemma atLeastOne_facts:
  "atLeastOne d \<Longrightarrow> positive d" "atLeastOne d \<Longrightarrow> \<not> negative d" "atLeastOne d \<Longrightarrow> d \<noteq> Finite 0"
  by (cases d, simp_all)+

text \<open>
  C3. \<^verbatim>\<open>openAtDepth(0)\<close> and then \<^verbatim>\<open>openAtDepth(d)\<close> are to leave the node as a
  fresh one, with no trace of an earlier expansion. With a frame clock and
  \<^verbatim>\<open>animateOpen\<close> set, \<^verbatim>\<open>toggleOpen\<close> on the closed node over \<^verbatim>\<open>{a: 1, b: 2}\<close>
  leaves a callback waiting for the next frame. \<^verbatim>\<open>openAtDepth(0)\<close> and
  \<^verbatim>\<open>openAtDepth(1)\<close> do not cancel it, and the second leaves one of its own: two frames
  later the container holds the rows \<^verbatim>\<open>a, a, b, b\<close>, where a node constructed over the
  value with depth 1 and rendered holds \<^verbatim>\<open>a, b\<close>.
\<close>

theorem openAtDepth_during_attach:
  "case constructor (JObj [(''a'', JNum 1), (''b'', JNum 2)]) (Finite 0) None
      \<lparr>config = \<lparr>hoverPreviewEnabled = None, hoverCopyEnabled = None,
                  hoverPreviewArrayCount = None, hoverPreviewFieldCount = None,
                  animateOpen = Some True, animateClose = None, theme = None,
                  useToJSON = None, sortPropertiesBy = None\<rparr>,
       frames = 0, clock = True, queue = []\<rparr> of
     (f, s) \<Rightarrow>
       (case render f s of
          (Inl err, s0) \<Rightarrow> False
        | (Inr f0, s0) \<Rightarrow>
            (case toggleOpen f0 s0 of
               (Inl err, s1) \<Rightarrow> False
             | (Inr f1, s1) \<Rightarrow>
                 element f1 \<noteq> None
                 \<and> (case openAtDepth (Finite 0) f1 s1 of
                      (Inl err, s2) \<Rightarrow> False
                    | (Inr f2, s2) \<Rightarrow>
                        (case openAtDepth (Finite 1) f2 s2 of
                           (Inl err, s3) \<Rightarrow> False
                         | (Inr f3, s3) \<Rightarrow>
                             (case runFrames (Suc (Suc 0)) f3 s3 of
                                (f4, s4) \<Rightarrow>
                                  queue s4 = []
                                  \<and> map key (rows f4)
                                      = [Some ''a'', Some ''a'', Some ''b'', Some ''b'']
                                  \<and> (case render (fst (constructor (json f1) (Finite 1) (key f1) s1)) s1 of
                                       (Inl err, s5) \<Rightarrow> False
                                     | (Inr fresh, s5) \<Rightarrow>
                                         map key (rows fresh) = [Some ''a'', Some ''b'']))))))"
  by code_simp

text \<open>
  C3, as the code has it. Take a rendered node with no callback waiting for a frame, over
  a value in which no object has a truthy member \<^verbatim>\<open>toJSON\<close>, with a configuration
  whose defaults are set (as they are once a node has been constructed with it) and whose
  theme has no white space, and a depth \<open>d \<ge> 1\<close>. Then \<^verbatim>\<open>openAtDepth(0)\<close> and
  \<^verbatim>\<open>openAtDepth(d)\<close> both return, the first leaves the node closed and without rows,
  and after the second and finitely many frames (none unless the attach is left to the
  frame clock) no callback waits and the node has the value, the depth, the openness, the
  class \<^verbatim>\<open>open\<close> and the rows of a formatter constructed over the same value with
  depth \<open>d\<close> and rendered. Construction does not change a configuration whose defaults
  are set, so the fresh node is rendered in the same environment.
\<close>

theorem openAtDepth_reset:
  assumes rendered: "element f \<noteq> None" and depth: "atLeastOne d"
    and conf: "defaulted (config s)" and t: "themeOk (config s)" and p: "plain (json f)"
    and q: "queue s = []"
  shows "\<exists>f1 s1 f2 s2 n f3 s3 fresh.
           openAtDepth (Finite 0) f s = (Inr f1, s1) \<and> \<not> isOpen f1 \<and> rows f1 = []
           \<and> openAtDepth d f1 s1 = (Inr f2, s2)
           \<and> runFrames n f2 s2 = (f3, s3) \<and> queue s3 = []
           \<and> render (fst (constructor (json f) d (key f) s)) s = (Inr fresh, s)
           \<and> snd (constructor (json f) d (key f) s) = s
           \<and> json f3 = json fresh
           \<and> openDepth f3 = openDepth fresh
           \<and> isOpen f3 = isOpen fresh
           \<and> hasOpenClass f3 = hasOpenClass fresh
           \<and> rows f3 = rows fresh
           \<and> (clock s \<and> animatedOrDefault (animateOpen (config s)) \<or> n = 0)"
proof -
  define f1 where "f1 = setOpenClass False (clearChildren (setIsOpen False (setOpenDepth (Finite 0) f)))"
  define c where "c = clearChildren (setIsOpen True (setOpenDepth d f1))"
  define nd where "nd = fst (constructor (json f) d (key f) s)"
  define Rows where "Rows = map (childRow nd s) (keys nd (config s))"
  obtain th where th: "themeClassOf (config s) = Inr th"
    using t by (rule themeOk_E)
  define fresh where "fresh = appendRows (if isOpen nd then Rows else [])
      (setElement (Some (Element (isOpen nd) th (classesOfChildren nd (config s)) [])) nd)"
  have o1: "openAtDepth (Finite 0) f s = (Inr f1, s)"
    by (simp add: openAtDepth_rendered [OF rendered] f1_def)
  have f1: "\<not> isOpen f1" "rows f1 = []" "element f1 \<noteq> None" "json f1 = json f"
    using rendered by (simp_all add: f1_def)
  have c: "element c \<noteq> None" "json c = json f" "openDepth c = d" "rows c = []" "isOpen c"
    using f1(3,4) by (simp_all add: c_def)
  have pc: "plain (json c)" using p c(2) by simp
  have n: "json nd = json f" "openDepth nd = d" "isOpen nd"
    using atLeastOne_facts(1) [OF depth] by (simp_all add: nd_def constructor_def isOpen_def)
  have pn: "plain (json nd)" using p n(1) by simp
  have rn: "render nd s = (Inr fresh, s)"
    by (simp add: render_defaulted [OF conf th pn] fresh_def Rows_def)
  have rf: "rows fresh = Rows"
    using n(3) by (simp add: fresh_def rows_appendRows) (simp add: rows_def)
  have fresh: "json fresh = json f" "openDepth fresh = d" "isOpen fresh" "hasOpenClass fresh"
  proof -
    show "json fresh = json f" "openDepth fresh = d" using n by (simp_all add: fresh_def)
    have "isOpen fresh = isOpen nd" unfolding fresh_def
      by (rule isOpen_cong) simp_all
    then show "isOpen fresh" using n(3) by simp
    show "hasOpenClass fresh" using n(3) by (simp add: fresh_def) (simp add: hasOpenClass_def)
  qed
  have sc: "snd (constructor (json f) d (key f) s) = s"
    by (simp add: constructor_defaulted [OF conf])
  have k: "keys c (config s) = keys nd (config s)"
    by (rule keys_cong) (simp_all add: c n)
  have cr: "childRow c s = childRow nd s"
    by (rule ext) (rule childRow_cong [OF conf t]; simp add: c n p)
  have o2: "appendChildren (animateOpen (config s)) c s = (Inr g, s2)
      \<Longrightarrow> openAtDepth d f1 s = (Inr (setOpenClass True g), s2)" for g s2
    using atLeastOne_facts(2,3) [OF depth]
    by (simp add: openAtDepth_rendered [OF f1(3)] c_def [symmetric])
  have "\<exists>f2 s2 n f3 s3. openAtDepth d f1 s = (Inr f2, s2)
        \<and> runFrames n f2 s2 = (f3, s3) \<and> queue s3 = []
        \<and> json f3 = json f \<and> openDepth f3 = d \<and> isOpen f3 \<and> hasOpenClass f3 \<and> rows f3 = Rows
        \<and> (clock s \<and> animatedOrDefault (animateOpen (config s)) \<or> n = 0)"
  proof (cases "clock s \<and> animatedOrDefault (animateOpen (config s)) \<and> \<not> isEmpty c (config s)")
    case True
    let ?s2 = "requestAnimationFrame (AddAChild 0) s"
    let ?f2 = "setOpenClass True c"
    have a: "appendChildren (animateOpen (config s)) c s = (Inr c, ?s2)"
      using True by (simp add: appendChildren_clock [OF c(1)])
    have e2: "element ?f2 \<noteq> None" using c(1) by simp
    have k2: "keys ?f2 (config ?s2) = keys nd (config s)"
      by (rule keys_cong) (simp_all add: c n)
    have pos: "0 < length (keys ?f2 (config ?s2))"
      using True k2 k by (simp add: isEmpty_iff)
    have d2: "defaulted (config ?s2)" and t2: "themeOk (config ?s2)" and c2: "clock ?s2"
      and q2: "queue ?s2 = [AddAChild 0]" and p2: "plain (json ?f2)"
      using conf t True q pc by (simp_all add: queue_requestAnimationFrame)
    obtain m s3 where m: "runFrames m ?f2 ?s2
        = (appendRows (map (childRow ?f2 ?s2) (drop 0 (keys ?f2 (config ?s2)))) ?f2, s3)"
      and q3: "queue s3 = []"
      using attach_settles [OF d2 t2 p2 c2 q2 pos] by blast
    have cr2: "childRow ?f2 ?s2 = childRow nd s"
      by (rule ext) (rule childRow_cong [OF conf t]; simp add: c n p)
    let ?f3 = "appendRows (map (childRow ?f2 ?s2) (drop 0 (keys ?f2 (config ?s2)))) ?f2"
    have "rows ?f3 = rows ?f2 @ map (childRow ?f2 ?s2) (keys ?f2 (config ?s2))"
      by (simp add: rows_appendRows [OF e2])
    then have r3: "rows ?f3 = Rows"
      unfolding k2 cr2 Rows_def using c(4) by simp
    have e3: "element ?f3 \<noteq> None" using e2 by simp
    have h3: "hasOpenClass ?f3"
      using hasOpenClass_setOpenClass [OF c(1), of True] by simp
    have i3: "isOpen ?f3" using c(5) by simp
    show ?thesis
    proof (intro exI conjI)
      show "openAtDepth d f1 s = (Inr ?f2, ?s2)" by (rule o2 [OF a])
      show "runFrames m ?f2 ?s2 = (?f3, s3)" by (rule m)
      show "queue s3 = []" by (rule q3)
      show "json ?f3 = json f" by (simp add: c)
      show "openDepth ?f3 = d" by (simp add: c)
      show "isOpen ?f3" by (rule i3)
      show "hasOpenClass ?f3" by (rule h3)
      show "rows ?f3 = Rows" by (rule r3)
      show "clock s \<and> animatedOrDefault (animateOpen (config s)) \<or> m = 0" using True by simp
    qed
  next
    case False
    let ?g = "appendRows (map (childRow c s) (keys c (config s))) c"
    have "\<exists>s2. appendChildren (animateOpen (config s)) c s = (Inr ?g, s2) \<and> queue s2 = []"
    proof (cases "clock s \<and> animatedOrDefault (animateOpen (config s))")
      case True
      then have e: "isEmpty c (config s)" using False by simp
      then have "keys c (config s) = []" by (simp add: isEmpty_iff)
      then have "?g = c" by (simp add: appendRows_def)
      then show ?thesis using True e q by (simp add: appendChildren_clock [OF c(1)])
    next
      case False
      then have m: "\<not> clock s \<or> \<not> animatedOrDefault (animateOpen (config s))" by simp
      obtain fr where "appendChildren (animateOpen (config s)) c s = (Inr ?g, s\<lparr>frames := fr\<rparr>)"
        using appendChildren_good [OF conf t pc c(1) m] by blast
      then show ?thesis using q by simp
    qed
    then obtain s2 where a: "appendChildren (animateOpen (config s)) c s = (Inr ?g, s2)"
      and q2: "queue s2 = []" by blast
    let ?f2 = "setOpenClass True ?g"
    have eg: "element ?g \<noteq> None" using c(1) by simp
    have r2: "rows ?f2 = Rows"
      using c(4) by (simp add: rows_appendRows [OF c(1)] k cr Rows_def)
    show ?thesis
    proof (intro exI conjI)
      show "openAtDepth d f1 s = (Inr ?f2, s2)" by (rule o2 [OF a])
      show "runFrames 0 ?f2 s2 = (?f2, s2)" by simp
      show "queue s2 = []" by (rule q2)
      show "json ?f2 = json f" by (simp add: c)
      show "openDepth ?f2 = d" by (simp add: c)
      show "isOpen ?f2" using c(5) by simp
      show "hasOpenClass ?f2" by (rule hasOpenClass_setOpenClass [OF eg, of True, simplified])
      show "rows ?f2 = Rows" by (rule r2)
      show "clock s \<and> animatedOrDefault (animateOpen (config s)) \<or> (0::nat) = 0" by simp
    qed
  qed
  then obtain f2 s2 m f3 s3 where
    a2: "openAtDepth d f1 s = (Inr f2, s2)" and
    a3: "runFrames m f2 s2 = (f3, s3)" and a4: "queue s3 = []" and
    a5: "json f3 = json f" "openDepth f3 = d" "isOpen f3" "hasOpenClass f3" "rows f3 = Rows" and
    a6: "clock s \<and> animatedOrDefault (animateOpen (config s)) \<or> m = 0"
    by blast
  show ?thesis
  proof (intro exI conjI)
    show "openAtDepth (Finite 0) f s = (Inr f1, s)" by (rule o1)
    show "\<not> isOpen f1" by (rule f1(1))
    show "rows f1 = []" by (rule f1(2))
    show "openAtDepth d f1 s = (Inr f2, s2)" by (rule a2)
    show "runFrames m f2 s2 = (f3, s3)" by (rule a3)
    show "queue s3 = []" by (rule a4)
    show "render (fst (constructor (json f) d (key f) s)) s = (Inr fresh, s)"
      using rn by (simp add: nd_def)
    show "snd (constructor (json f) d (key f) s) = s" by (rule sc)
    show "json f3 = json fresh" using a5 fresh by simp
    show "openDepth f3 = openDepth fresh" using a5 fresh by simp
    show "isOpen f3 = isOpen fresh" using a5 fresh by simp
    show "hasOpenClass f3 = hasOpenClass fresh" using a5 fresh by simp
    show "rows f3 = rows fresh" using a5 rf by simp
    show "clock s \<and> animatedOrDefault (animateOpen (config s)) \<or> m = 0" by (rule a6)
  qed
qed

text \<open>
  The node over \<^verbatim>\<open>{a: 1, b: 2}\<close> with the default configuration and a frame clock,
  reopened at depth 2: the attach is left to the frames.
\<close>

theorem openAtDepth_reset_witness:
  "element (Formatter (JObj [(''a'', JNum 1), (''b'', JNum 2)]) (Finite 0) None None
              (Some (Element False None [''object''] []))) \<noteq> None
   \<and> atLeastOne (Finite 2)
   \<and> defaulted (config \<lparr>config = defaultConfig, frames = 0, clock = True, queue = []\<rparr>)
   \<and> themeOk (config \<lparr>config = defaultConfig, frames = 0, clock = True, queue = []\<rparr>)
   \<and> plain (JObj [(''a'', JNum 1), (''b'', JNum 2)])
   \<and> (\<exists>f1 s1 f2 s2 n f3 s3 fresh.
         openAtDepth (Finite 0) (Formatter (JObj [(''a'', JNum 1), (''b'', JNum 2)]) (Finite 0) None None
              (Some (Element False None [''object''] [])))
            \<lparr>config = defaultConfig, frames = 0, clock = True, queue = []\<rparr> = (Inr f1, s1)
         \<and> openAtDepth (Finite 2) f1 s1 = (Inr f2, s2)
         \<and> runFrames n f2 s2 = (f3, s3) \<and> queue s3 = []
         \<and> render (fst (constructor (JObj [(''a'', JNum 1), (''b'', JNum 2)]) (Finite 2) None
                \<lparr>config = defaultConfig, frames = 0, clock = True, queue = []\<rparr>))
              \<lparr>config = defaultConfig, frames = 0, clock = True, queue = []\<rparr>
             = (Inr fresh, \<lparr>config = defaultConfig, frames = 0, clock = True, queue = []\<rparr>)
         \<and> isOpen f3 = isOpen fresh \<and> hasOpenClass f3 = hasOpenClass fresh
         \<and> rows f3 = rows fresh)"
proof -
  let ?F = "Formatter (JObj [(''a'', JNum 1), (''b'', JNum 2)]) (Finite 0) None None
              (Some (Element False None [''object''] []))"
  let ?S = "\<lparr>config = defaultConfig, frames = 0, clock = True, queue = []\<rparr>"
  have e: "element ?F \<noteq> None" by simp
  have a: "atLeastOne (Finite 2)" by simp
  have d: "defaulted (config ?S)"
    by (simp add: defaulted_def applyDefaults_def Let_def orDefault_def defaultConfig_def)
  have t: "themeOk (config ?S)"
    by (simp add: themeOk_def themeClassOf_def defaultConfig_def)
  have p: "plain (json ?F)" by simp
  have q: "queue ?S = []" by simp
  from openAtDepth_reset [OF e a d t p q] obtain f1 s1 f2 s2 n f3 s3 fresh where
    r: "openAtDepth (Finite 0) ?F ?S = (Inr f1, s1)" "openAtDepth (Finite 2) f1 s1 = (Inr f2, s2)"
      "runFrames n f2 s2 = (f3, s3)" "queue s3 = []"
      "render (fst (constructor (json ?F) (Finite 2) (key ?F) ?S)) ?S = (Inr fresh, ?S)"
      "isOpen f3 = isOpen fresh" "hasOpenClass f3 = hasOpenClass fresh" "rows f3 = rows fresh"
    by blast
  have "\<exists>f1 s1 f2 s2 n f3 s3 fresh.
         openAtDepth (Finite 0) ?F ?S = (Inr f1, s1)
         \<and> openAtDepth (Finite 2) f1 s1 = (Inr f2, s2)
         \<and> runFrames n f2 s2 = (f3, s3) \<and> queue s3 = []
         \<and> render (fst (constructor (JObj [(''a'', JNum 1), (''b'', JNum 2)]) (Finite 2) None ?S)) ?S
             = (Inr fresh, ?S)
         \<and> isOpen f3 = isOpen fresh \<and> hasOpenClass f3 = hasOpenClass fresh
         \<and> rows f3 = rows fresh"
  proof (intro exI conjI)
    show "openAtDepth (Finite 0) ?F ?S = (Inr f1, s1)" by (rule r(1))
    show "openAtDepth (Finite 2) f1 s1 = (Inr f2, s2)" by (rule r(2))
    show "runFrames n f2 s2 = (f3, s3)" by (rule r(3))
    show "queue s3 = []" by (rule r(4))
    show "render (fst (constructor (JObj [(''a'', JNum 1), (''b'', JNum 2)]) (Finite 2) None ?S)) ?S
        = (Inr fresh, ?S)" using r(5) by simp
    show "isOpen f3 = isOpen fresh" by (rule r(6))
    show "hasOpenClass f3 = hasOpenClass fresh" by (rule r(7))
    show "rows f3 = rows fresh" by (rule r(8))
  qed
  with e a d t p show ?thesis by simp
qed

subsection \<open>Properties of the animated attach\<close>

text \<open>
  Over a value in which no object has a truthy member \<^verbatim>\<open>toJSON\<close>,
  \<^verbatim>\<open>appendChildren(true)\<close> with the synchronous fallback of
  \<^verbatim>\<open>requestAnimationFrame\<close> returns with one row per key appended, in the order of
  the keys, each over the member of its key, as the attach that is not animated does;
  the keys beyond the threshold of ten paced steps are attached by the direct recursion.
\<close>

lemma animated_attach_plain:
  assumes e: "element f \<noteq> None" and d: "defaulted (config s)" and t: "themeOk (config s)"
    and p: "plain (json f)" and c: "\<not> clock s"
  shows "\<exists>g s'. appendChildren (Some True) f s = (Inr g, s')
           \<and> rows g = rows f @ map (childRow f s) (keys f (config s))
           \<and> map key (drop (length (rows f)) (rows g))
               = map (\<lambda>k. Some (if k = [] then ''\"\"'' else k)) (keys f (config s))
           \<and> map json (drop (length (rows f)) (rows g))
               = map (getMember (json f)) (keys f (config s))
           \<and> appendChildrenSync f s = (Inr g, s)"
proof -
  let ?g = "appendRows (map (childRow f s) (keys f (config s))) f"
  have m: "\<not> clock s \<or> \<not> animatedOrDefault (Some True)" using c by simp
  obtain fr where a: "appendChildren (Some True) f s = (Inr ?g, s\<lparr>frames := fr\<rparr>)"
    using appendChildren_good [OF d t p e m] by blast
  have r: "rows ?g = rows f @ map (childRow f s) (keys f (config s))"
    by (rule rows_appendRows [OF e])
  show ?thesis
  proof (intro exI conjI)
    show "appendChildren (Some True) f s = (Inr ?g, s\<lparr>frames := fr\<rparr>)" by (rule a)
    show "rows ?g = rows f @ map (childRow f s) (keys f (config s))" by (rule r)
    show "map key (drop (length (rows f)) (rows ?g))
        = map (\<lambda>k. Some (if k = [] then ''\"\"'' else k)) (keys f (config s))"
      by (simp add: r childRow_fields [OF d t p] o_def)
    show "map json (drop (length (rows f)) (rows ?g)) = map (getMember (json f)) (keys f (config s))"
      by (simp add: r childRow_fields [OF d t p] o_def)
    show "appendChildrenSync f s = (Inr ?g, s)"
      by (rule appendChildrenSync_defaulted [OF d t p])
  qed
qed

text \<open>
  An array of thirteen numbers, rendered closed: the animated attach with the synchronous
  fallback makes eleven calls of \<^verbatim>\<open>requestAnimationFrame\<close>, attaches the last two
  children by the direct recursion beyond the threshold, and returns with the thirteen
  rows in the order of the indices.
\<close>

lemma animated_attach_beyond_threshold:
  "case constructor (JArr [JNum 0, JNum 1, JNum 2, JNum 3, JNum 4, JNum 5, JNum 6, JNum 7,
                           JNum 8, JNum 9, JNum 10, JNum 11, JNum 12])
          (Finite 0) None \<lparr>config = defaultConfig, frames = 0, clock = False, queue = []\<rparr> of
     (f, s) \<Rightarrow>
       (case render f s of
          (Inl err, s1) \<Rightarrow> False
        | (Inr f1, s1) \<Rightarrow>
            rows f1 = []
            \<and> (case appendChildren (Some True) f1 s1 of
                 (Inl err, s2) \<Rightarrow> False
               | (Inr f2, s2) \<Rightarrow>
                   map key (rows f2)
                     = [Some ''0'', Some ''1'', Some ''2'', Some ''3'', Some ''4'', Some ''5'',
                        Some ''6'', Some ''7'', Some ''8'', Some ''9'', Some ''10'', Some ''11'',
                        Some ''12'']
                   \<and> map json (rows f2)
                     = [JNum 0, JNum 1, JNum 2, JNum 3, JNum 4, JNum 5, JNum 6, JNum 7,
                        JNum 8, JNum 9, JNum 10, JNum 11, JNum 12]
                   \<and> frames s2 = 11 \<and> queue s2 = []))"
  by code_simp

text \<open>
  C4. On a rendered node with N keys, \<^verbatim>\<open>appendChildren(true)\<close> with the synchronous
  fallback of \<^verbatim>\<open>requestAnimationFrame\<close> is to return with N rows, one per key. The
  getter \<^verbatim>\<open>type\<close> takes any truthy member \<^verbatim>\<open>toJSON\<close> for a serialization method,
  and \<^verbatim>\<open>render\<close> calls it. On the node over \<^verbatim>\<open>{x: {toJSON: 1}}\<close>, constructed with
  the configuration \<^verbatim>\<open>{}\<close> and rendered closed, which has the one key \<^verbatim>\<open>x\<close>, the
  animated attach throws a \<^verbatim>\<open>TypeError\<close> when it renders the child, and no row is
  attached; so does the attach that is not animated.
\<close>

theorem animated_attach_throws:
  "case constructor (JObj [(''x'', JObj [(''toJSON'', JNum 1)])]) (Finite 0) None
      \<lparr>config = \<lparr>hoverPreviewEnabled = None, hoverCopyEnabled = None,
                  hoverPreviewArrayCount = None, hoverPreviewFieldCount = None,
                  animateOpen = None, animateClose = None, theme = None,
                  useToJSON = None, sortPropertiesBy = None\<rparr>,
       frames = 0, clock = False, queue = []\<rparr> of
     (f, s) \<Rightarrow>
       (case render f s of
          (Inl err, s1) \<Rightarrow> False
        | (Inr f1, s1) \<Rightarrow>
            \<not> isEmpty f1 (config s1) \<and> keys f1 (config s1) = [''x'']
            \<and> fst (appendChildren (Some True) f1 s1) = Inl TypeError
            \<and> fst (appendChildren (Some False) f1 s1) = Inl TypeError)"
  by code_simp

subsection \<open>Operations on a node that was not rendered\<close>

text \<open>
  On a node that was not rendered, \<^verbatim>\<open>toggleOpen\<close> and \<^verbatim>\<open>openAtDepth\<close> with a depth
  that is not negative return; they set \<^verbatim>\<open>_isOpen\<close> (and \<^verbatim>\<open>openAtDepth\<close> the depth)
  and leave the environment as it was and the node without element. Over a value in which
  no object has a truthy member \<^verbatim>\<open>toJSON\<close>, \<^verbatim>\<open>render\<close> returns a row that carries the
  class \<^verbatim>\<open>open\<close> exactly if the node is open, with the rows of its keys if it is open
  and none otherwise.
\<close>

lemma unrendered_operations:
  assumes "element f = None" and "\<not> negative d"
  shows "toggleOpen f s = (Inr (setIsOpen (\<not> isOpen f) f), s)"
    and "openAtDepth d f s = (Inr (setIsOpen (d \<noteq> Finite 0) (setOpenDepth d f)), s)"
  using assms by (simp_all add: toggleOpen_def openAtDepth_def Let_def)

lemma render_plain:
  assumes d: "defaulted (config s)" and t: "themeOk (config s)" and p: "plain (json f)"
  shows "\<exists>r. render f s = (Inr r, s) \<and> hasOpenClass r = isOpen f
           \<and> rows r = (if isOpen f then map (childRow f s) (keys f (config s)) else [])"
proof -
  obtain th where th: "themeClassOf (config s) = Inr th"
    using t by (rule themeOk_E)
  let ?r = "appendRows (if isOpen f then map (childRow f s) (keys f (config s)) else [])
        (setElement (Some (Element (isOpen f) th (classesOfChildren f (config s)) [])) f)"
  have "render f s = (Inr ?r, s)" by (rule render_defaulted [OF d th p])
  moreover have "hasOpenClass ?r = isOpen f" by simp (simp add: hasOpenClass_def)
  moreover have "rows ?r = (if isOpen f then map (childRow f s) (keys f (config s)) else [])"
    by (simp add: rows_appendRows) (simp add: rows_def)
  ultimately show ?thesis by blast
qed

text \<open>
  C10. On a node that was not rendered, \<^verbatim>\<open>toggleOpen\<close> and \<^verbatim>\<open>openAtDepth\<close> with a
  depth that is not negative are to return without an error and to change the open state
  only, and \<^verbatim>\<open>render\<close> afterwards is to show the node with that openness. On the node
  over \<^verbatim>\<open>{toJSON: 1}\<close>, constructed with the configuration \<^verbatim>\<open>{}\<close>, both operations
  return and leave the node open and without element, and the \<^verbatim>\<open>render\<close> that follows
  throws a \<^verbatim>\<open>TypeError\<close>: the getter \<^verbatim>\<open>type\<close> takes the truthy member
  \<^verbatim>\<open>toJSON\<close> for a serialization method, and \<^verbatim>\<open>render\<close> calls the number 1.
\<close>

theorem render_after_toggleOpen_throws:
  "case constructor (JObj [(''toJSON'', JNum 1)]) (Finite 0) None
      \<lparr>config = \<lparr>hoverPreviewEnabled = None, hoverCopyEnabled = None,
                  hoverPreviewArrayCount = None, hoverPreviewFieldCount = None,
                  animateOpen = None, animateClose = None, theme = None,
                  useToJSON = None, sortPropertiesBy = None\<rparr>,
       frames = 0, clock = c, queue = []\<rparr> of
     (f, s) \<Rightarrow>
       element f = None
       \<and> (case toggleOpen f s of
            (Inl err, s1) \<Rightarrow> False
          | (Inr f1, s1) \<Rightarrow> isOpen f1 \<and> element f1 = None \<and> fst (render f1 s1) = Inl TypeError)
       \<and> (case openAtDepth (Finite 1) f s of
            (Inl err, s1) \<Rightarrow> False
          | (Inr f1, s1) \<Rightarrow> isOpen f1 \<and> element f1 = None \<and> fst (render f1 s1) = Inl TypeError)"
  by code_simp

subsection \<open>Properties of the shared configuration\<close>

lemma defaulted_applyDefaults: "defaulted (applyDefaults c)"
  by (simp add: defaulted_def applyDefaults_idem)

lemma snd_attach:
  "snd (case x of (Inl (err, g), t) \<Rightarrow> (Inl err, t) | (Inr g, t) \<Rightarrow> (Inr g, t)) = snd x"
  by (auto split: prod.splits sum.splits)

lemma appendChildren_config:
  "defaulted (config s) \<Longrightarrow> config (snd (appendChildren a f s)) = config s"
  by (auto simp: appendChildren_def snd_attach addAChild_config render_env_id(2)
      split: option.splits)

lemma removeChildren_config: "config (snd (removeChildren a f s)) = config s"
  using removeAChild_config [of f 0 "requestAnimationFrame (RemoveAChild 0) s"]
  by (auto simp: removeChildren_def split: option.splits prod.splits)

lemma snd_result:
  "snd (case x of (Inl err, t) \<Rightarrow> (Inl err, t) | (Inr g, t) \<Rightarrow> (Inr (h g), t)) = snd x"
  by (auto split: prod.splits sum.splits)

lemma toggleOpen_config:
  "defaulted (config s) \<Longrightarrow> config (snd (toggleOpen f s)) = config s"
  unfolding toggleOpen_def Let_def
  by (simp add: snd_result appendChildren_config removeChildren_config split: option.splits)

lemma openAtDepth_config:
  assumes d: "defaulted (config s)"
  shows "config (snd (openAtDepth dp f s)) = config s"
proof -
  have r: "removeChildren (Some False) g s = (x, t) \<Longrightarrow> t = s" for g x t
    by (auto simp: removeChildren_def animatedOrDefault_def split: option.splits)
  show ?thesis
    unfolding openAtDepth_def Let_def
    using d
    by (auto simp: snd_result appendChildren_config dest!: r split: option.splits prod.splits sum.splits)
qed

lemma runCallback_config:
  assumes "defaulted (config s)"
  shows "config (snd (runCallback cb f s)) = config s"
proof (cases cb)
  case (AddAChild i)
  then show ?thesis
    using addAChild_config [OF assms, of f i]
    by (cases "addAChild f i s") (auto split: sum.splits)
next
  case (RemoveAChild r)
  then show ?thesis by (simp add: removeAChild_config)
qed

lemma runFrame_config:
  assumes d: "defaulted (config s)"
  shows "config (snd (runFrame f s)) = config s"
proof -
  let ?P = "\<lambda>t. config t = config s"
  have "?P (snd (fold (\<lambda>cb (g, t). runCallback cb g t) (queue s) (f, s\<lparr>queue := []\<rparr>)))"
  proof (rule fold_env_invariant)
    fix k and a :: formatter and t :: env
    assume "config t = config s"
    then show "config (snd ((\<lambda>cb (g, t). runCallback cb g t) k (a, t))) = config s"
      using d by (simp add: runCallback_config)
  qed simp
  then show ?thesis by (simp add: runFrame_def)
qed

lemma runFrames_config:
  "defaulted (config s) \<Longrightarrow> config (snd (runFrames n f s)) = config s"
proof (induction n arbitrary: f s)
  case 0
  then show ?case by simp
next
  case (Suc n)
  show ?case
  proof (cases "runFrame f s")
    case (Pair g t)
    then have c: "config t = config s" using runFrame_config [OF Suc.prems, of f] by simp
    then have "defaulted (config t)" using Suc.prems by simp
    then have "config (snd (runFrames n g t)) = config t" by (rule Suc.IH)
    then show ?thesis using Pair c by simp
  qed
qed

text \<open>
  Over a value in which no object has a truthy member \<^verbatim>\<open>toJSON\<close>, and with a theme
  without white space, \<^verbatim>\<open>toggleOpen\<close> and \<^verbatim>\<open>openAtDepth\<close> return, on a rendered
  node and on one that was not rendered.
\<close>

lemma appendChildren_returns:
  assumes d: "defaulted (config s)" and t: "themeOk (config s)" and p: "plain (json f)"
    and e: "element f \<noteq> None"
  shows "\<exists>g s'. appendChildren a f s = (Inr g, s')"
proof (cases "clock s \<and> animatedOrDefault a")
  case True
  then show ?thesis using e by (simp add: appendChildren_clock)
next
  case False
  then have "\<not> clock s \<or> \<not> animatedOrDefault a" by simp
  from appendChildren_good [OF d t p e this] show ?thesis by blast
qed

lemma removeChildren_returns:
  assumes e: "element f \<noteq> None"
  shows "\<exists>g s'. removeChildren a f s = (Inr g, s')"
proof (cases "clock s \<and> animatedOrDefault a")
  case True
  then show ?thesis using e by (simp add: removeChildren_clock)
next
  case False
  then have "\<not> clock s \<or> \<not> animatedOrDefault a" by simp
  from removeChildren_good [OF e this] show ?thesis by blast
qed

lemma toggleOpen_returns:
  assumes d: "defaulted (config s)" and t: "themeOk (config s)" and p: "plain (json f)"
  shows "\<exists>g s'. toggleOpen f s = (Inr g, s')"
proof (cases "element f = None")
  case True
  then show ?thesis by (simp add: toggleOpen_def Let_def)
next
  case False
  show ?thesis
  proof (cases "isOpen f")
    case True
    have "element (setIsOpen False f) \<noteq> None" using False by simp
    from removeChildren_returns [OF this] obtain g s' where
      "removeChildren (animateClose (config s)) (setIsOpen False f) s = (Inr g, s')" by blast
    from toggleOpen_rendered(1) [OF False True this] show ?thesis by blast
  next
    case closed: False
    have "element (setIsOpen True f) \<noteq> None" "plain (json (setIsOpen True f))"
      using False p by simp_all
    from appendChildren_returns [OF d t this(2,1)] obtain g s' where
      "appendChildren (animateOpen (config s)) (setIsOpen True f) s = (Inr g, s')" by blast
    from toggleOpen_rendered(2) [OF False closed this] show ?thesis by blast
  qed
qed

lemma openAtDepth_returns:
  assumes d: "defaulted (config s)" and t: "themeOk (config s)" and p: "plain (json f)"
  shows "\<exists>g s'. openAtDepth dp f s = (Inr g, s')"
proof (cases "negative dp \<or> element f = None")
  case True
  then show ?thesis by (auto simp: openAtDepth_def Let_def)
next
  case False
  then have r: "element f \<noteq> None" and n: "\<not> negative dp" by simp_all
  show ?thesis
  proof (cases "dp = Finite 0")
    case True
    then show ?thesis by (simp add: openAtDepth_rendered [OF r])
  next
    case False
    have "element (clearChildren (setIsOpen True (setOpenDepth dp f))) \<noteq> None"
      "plain (json (clearChildren (setIsOpen True (setOpenDepth dp f))))"
      using r p by simp_all
    from appendChildren_returns [OF d t this(2,1)] obtain g s' where
      "appendChildren (animateOpen (config s))
         (clearChildren (setIsOpen True (setOpenDepth dp f))) s = (Inr g, s')" by blast
    then show ?thesis using False by (simp add: openAtDepth_rendered [OF r n])
  qed
qed

text \<open>
  C8. Construction is to leave the configuration object of the caller unchanged.
  Constructed with the object \<^verbatim>\<open>{}\<close>, the constructor writes the five defaults into it.
\<close>

theorem constructor_changes_configuration:
  "config (snd (constructor (JObj []) (Finite 1) None
      \<lparr>config = \<lparr>hoverPreviewEnabled = None, hoverCopyEnabled = None,
                  hoverPreviewArrayCount = None, hoverPreviewFieldCount = None,
                  animateOpen = None, animateClose = None, theme = None,
                  useToJSON = None, sortPropertiesBy = None\<rparr>,
       frames = 0, clock = False, queue = []\<rparr>))
   \<noteq> \<lparr>hoverPreviewEnabled = None, hoverCopyEnabled = None,
        hoverPreviewArrayCount = None, hoverPreviewFieldCount = None,
        animateOpen = None, animateClose = None, theme = None,
        useToJSON = None, sortPropertiesBy = None\<rparr>"
  by (simp add: constructor_def applyDefaults_def Let_def orDefault_def defaultConfig_def)

text \<open>
  C8, as the code has it. The constructor assigns the default to each of
  \<^verbatim>\<open>hoverPreviewEnabled\<close>, \<^verbatim>\<open>hoverCopyEnabled\<close>, \<^verbatim>\<open>hoverPreviewArrayCount\<close>,
  \<^verbatim>\<open>hoverPreviewFieldCount\<close> and \<^verbatim>\<open>useToJSON\<close> that is unset in the configuration
  object, and leaves its other options as they are. After one construction, a further
  construction, \<^verbatim>\<open>render\<close>, \<^verbatim>\<open>toggleOpen\<close> and \<^verbatim>\<open>openAtDepth\<close> on any node, and
  any number of frames with the callbacks that wait, leave the configuration object
  unchanged, whether they return or throw.
\<close>

theorem configuration_after_construction:
  "config (snd (constructor j d k s)) = applyDefaults (config s)
   \<and> hoverPreviewEnabled (applyDefaults c) = orDefault (hoverPreviewEnabled c) (Some False)
   \<and> hoverCopyEnabled (applyDefaults c) = orDefault (hoverCopyEnabled c) (Some True)
   \<and> hoverPreviewArrayCount (applyDefaults c) = orDefault (hoverPreviewArrayCount c) (Some 100)
   \<and> hoverPreviewFieldCount (applyDefaults c) = orDefault (hoverPreviewFieldCount c) (Some 5)
   \<and> useToJSON (applyDefaults c) = orDefault (useToJSON c) (Some True)
   \<and> animateOpen (applyDefaults c) = animateOpen c
   \<and> animateClose (applyDefaults c) = animateClose c
   \<and> theme (applyDefaults c) = theme c
   \<and> sortPropertiesBy (applyDefaults c) = sortPropertiesBy c
   \<and> config (snd (constructor j' d' k' (snd (constructor j d k s))))
       = config (snd (constructor j d k s))
   \<and> config (snd (render f (snd (constructor j d k s)))) = config (snd (constructor j d k s))
   \<and> config (snd (toggleOpen f (snd (constructor j d k s))))
       = config (snd (constructor j d k s))
   \<and> config (snd (openAtDepth d' f (snd (constructor j d k s))))
       = config (snd (constructor j d k s))
   \<and> config (snd (runFrames n f (snd (constructor j d k s))))
       = config (snd (constructor j d k s))"
proof -
  define s' where "s' = snd (constructor j d k s)"
  have c: "config s' = applyDefaults (config s)"
    by (simp add: s'_def constructor_def)
  have d: "defaulted (config s')"
    by (simp add: c defaulted_applyDefaults)
  have fields:
    "hoverPreviewEnabled (applyDefaults c) = orDefault (hoverPreviewEnabled c) (Some False)"
    "hoverCopyEnabled (applyDefaults c) = orDefault (hoverCopyEnabled c) (Some True)"
    "hoverPreviewArrayCount (applyDefaults c) = orDefault (hoverPreviewArrayCount c) (Some 100)"
    "hoverPreviewFieldCount (applyDefaults c) = orDefault (hoverPreviewFieldCount c) (Some 5)"
    "useToJSON (applyDefaults c) = orDefault (useToJSON c) (Some True)"
    "animateOpen (applyDefaults c) = animateOpen c"
    "animateClose (applyDefaults c) = animateClose c"
    "theme (applyDefaults c) = theme c"
    "sortPropertiesBy (applyDefaults c) = sortPropertiesBy c"
    by (simp_all add: applyDefaults_def Let_def defaultConfig_def)
  have c2: "config (snd (constructor j' d' k' s')) = config s'"
    using d by (simp add: constructor_defaulted)
  have r: "config (snd (render f s')) = config s'"
    by (simp add: render_env_id(1) [OF d])
  show ?thesis
    using c fields c2 r toggleOpen_config [OF d, of f] openAtDepth_config [OF d, of d' f]
      runFrames_config [OF d, of n f]
    unfolding s'_def by (intro conjI) assumption+
qed

text \<open>
  C9. \<^verbatim>\<open>animateOpen\<close> is to default to true. A node constructed with the configuration
  \<^verbatim>\<open>{}\<close> and depth 0, rendered and toggled open, with or without a frame clock: the
  constructor has not assigned \<^verbatim>\<open>animateOpen\<close>, \<^verbatim>\<open>toggleOpen\<close> passes
  \<^verbatim>\<open>undefined\<close> to \<^verbatim>\<open>appendChildren\<close>, whose parameter then takes its default
  \<^verbatim>\<open>false\<close>, and the two children are attached at once, without a single call of
  \<^verbatim>\<open>requestAnimationFrame\<close> and with no callback left waiting.
\<close>

theorem toggleOpen_without_animateOpen:
  "case constructor (JObj [(''a'', JNum 1), (''b'', JNum 2)]) (Finite 0) None
      \<lparr>config = \<lparr>hoverPreviewEnabled = None, hoverCopyEnabled = None,
                  hoverPreviewArrayCount = None, hoverPreviewFieldCount = None,
                  animateOpen = None, animateClose = None, theme = None,
                  useToJSON = None, sortPropertiesBy = None\<rparr>,
       frames = 0, clock = c, queue = []\<rparr> of
     (f, s) \<Rightarrow>
       (case render f s of
          (Inl err, s1) \<Rightarrow> False
        | (Inr f1, s1) \<Rightarrow>
            animateOpen (config s1) = None
            \<and> (case toggleOpen f1 s1 of
                 (Inl err, s2) \<Rightarrow> False
               | (Inr f2, s2) \<Rightarrow>
                   isOpen f2 \<and> length (rows f2) = 2 \<and> frames s2 = 0 \<and> queue s2 = []))"
  by code_simp

end
